theory Spec2Isabelle
  imports Main "HOL-Library.Sublist"
begin

section \<open>MulticallService: a shallow embedding\<close>

text \<open>
  The service of \<^verbatim>\<open>packages/dai/src/eth/MulticallService.js\<close> keeps a replaying root
  stream, a nested registry of streams (\<^verbatim>\<open>observableStore\<close>) and a watcher that batches
  contract calls. Every method becomes a function on an explicit service state; a
  throwing method returns the error together with the state reached when it threw.
\<close>

subsection \<open>Errors\<close>

text \<open>
  \<^item> \<open>WatcherNotDefined\<close>: \<^verbatim>\<open>throw new Error('watcher is not defined')\<close>;
  \<^item> \<open>RpcUrlUnavailable\<close>: \<^verbatim>\<open>throw new Error('Unable to get rpcUrl for multicall')\<close>;
  \<^item> \<open>MalformedCallSignature\<close>: \<^verbatim>\<open>throw new Error('Invalid contract call specified,
    call must return at least one argument')\<close>;
  \<^item> \<open>ArityMismatch\<close>: the two \<^verbatim>\<open>throw new Error('Invalid contract call specified,
    number of ... does not match ...')\<close> of \<^verbatim>\<open>registerLogicalSchema\<close>;
  \<^item> \<open>TypeError\<close>: the runtime error of reading a property of \<^verbatim>\<open>undefined\<close>.
\<close>

datatype error =
  WatcherNotDefined | RpcUrlUnavailable | MalformedCallSignature | ArityMismatch | TypeError

subsection \<open>Strings\<close>

text \<open>
  \<^verbatim>\<open>String.prototype.split\<close> with a one-character separator: the result is never
  empty, the empty string gives one empty fragment, and a leading, trailing or doubled
  separator gives an empty fragment.
\<close>

fun split :: "char \<Rightarrow> string \<Rightarrow> string list" where
  "split c [] = [[]]"
| "split c (x # xs) =
     (if x = c then [] # split c xs
      else (let r = split c xs in (x # hd r) # tl r))"

text \<open>\<^verbatim>\<open>Array.prototype.join\<close> on an array of strings.\<close>

fun join :: "string \<Rightarrow> string list \<Rightarrow> string" where
  "join sep [] = []"
| "join sep [x] = x"
| "join sep (x # y # ys) = x @ sep @ join sep (y # ys)"

subsection \<open>destructureContractCall\<close>

text \<open>
  \<^verbatim>\<open>if (s[s.length - 1] === ')') return s.substring(0, s.length - 1); else return s;\<close>
  On the empty string \<^verbatim>\<open>s[-1]\<close> is \<^verbatim>\<open>undefined\<close>, so nothing is stripped.
\<close>

definition stripParen :: "string \<Rightarrow> string" where
  "stripParen s = (if s \<noteq> [] \<and> last s = CHR '')'' then butlast s else s)"

record call_signature =
  callFnName :: "string list"
  callTypes :: "string list"
  returnTypes :: "string list"

text \<open>
  The chain \<^verbatim>\<open>call.split('(').map(strip).map(s => s.split(',')).map(s => s.filter(x => x !== ''))\<close>.
\<close>

definition callGroups :: "string \<Rightarrow> string list list" where
  "callGroups call =
     map (filter (\<lambda>x. x \<noteq> ''''))
       (map (split CHR '','') (map stripParen (split CHR ''('' call)))"

text \<open>
  The array destructuring takes the first three groups and ignores further ones. With
  fewer than three groups \<^verbatim>\<open>returnTypes\<close> is \<^verbatim>\<open>undefined\<close> and
  \<^verbatim>\<open>returnTypes.length\<close> raises a \<open>TypeError\<close>.
\<close>

definition destructureContractCall :: "string \<Rightarrow> error + call_signature" where
  "destructureContractCall call =
     (case callGroups call of
        fnName # argTypes # retTypes # _ \<Rightarrow>
          if length retTypes < 1 then Inl MalformedCallSignature
          else Inr \<lparr>callFnName = fnName, callTypes = argTypes, returnTypes = retTypes\<rparr>
      | _ \<Rightarrow> Inl TypeError)"

subsection \<open>Objects: registry nodes and stream objects\<close>

text \<open>
  A value stored in the registry is either an rxjs stream object or a plain object.
  Stream objects have identity: they live in a heap (a list, the address is the index),
  and a registry node refers to one by \<open>Obs a\<close>. Plain objects are kept by value:
  \<^verbatim>\<open>merge({}, store, entry)\<close> first copies every plain object of \<^verbatim>\<open>store\<close> into a new
  one (lodash \<^verbatim>\<open>initCloneObject\<close>), so two registry snapshots never share a plain object
  except below a stream object, where it is reached through that stream's heap cell.
  An object's properties are an association list in insertion order.

  A stream is described by what a subscriber has received, as a function of everything the
  root \<^verbatim>\<open>ReplaySubject\<close> has emitted so far (\<open>emits\<close>). The properties (\<open>props\<close>) of a
  stream object are those written by this module; the members rxjs itself defines
  (\<^verbatim>\<open>source\<close>, \<^verbatim>\<open>operator\<close>, \<^verbatim>\<open>pipe\<close>, ...) and those inherited from
  \<^verbatim>\<open>Object.prototype\<close> are not part of the model, so path segments naming them are
  outside it.
\<close>

datatype node = Obs nat | Obj "(string \<times> node) list"

text \<open>An update \<^verbatim>\<open>{ type, value }\<close> of the watcher; \<open>val\<close> is its \<^verbatim>\<open>value\<close> field.\<close>

record 'v event =
  type :: string
  val :: 'v

record 'v observable =
  emits :: "'v event list \<Rightarrow> 'v list"
  props :: "(string \<times> node) list"

fun propsOf :: "'v observable list \<Rightarrow> nat \<Rightarrow> (string \<times> node) list" where
  "propsOf h a = (if a < length h then props (h ! a) else [])"

text \<open>\<^verbatim>\<open>object[key] = value\<close>: an existing key keeps its position, a new one is appended.\<close>

fun assignValue :: "(string \<times> node) list \<Rightarrow> string \<Rightarrow> node \<Rightarrow> (string \<times> node) list" where
  "assignValue [] key v = [(key, v)]"
| "assignValue ((k, w) # ps) key v =
     (if k = key then (key, v) # ps else (k, w) # assignValue ps key v)"

subsection \<open>lodash merge and get\<close>

text \<open>
  \<^verbatim>\<open>baseMerge(object, source)\<close> of lodash 4.17, for each key of \<^verbatim>\<open>source\<close> in order:
  \<^item> a source value that is not a plain object (here: a stream) is assigned by reference;
  \<^item> a plain source value is merged recursively into the destination's value when that
    is an object, and into a new empty object otherwise
    (\<^verbatim>\<open>newValue = objValue; if (!isObject(objValue)) newValue = initCloneObject(srcValue)\<close>).
  A destination value that is a stream object counts as an object: the source's
  properties are written into the stream object itself, in place. That is the third
  branch below, the only one that changes the heap.
\<close>

fun baseMerge ::
  "'v observable list \<Rightarrow> (string \<times> node) list \<Rightarrow> (string \<times> node) list
     \<Rightarrow> 'v observable list \<times> (string \<times> node) list" where
  "baseMerge h object [] = (h, object)"
| "baseMerge h object ((key, Obs a) # rest) =
     baseMerge h (assignValue object key (Obs a)) rest"
| "baseMerge h object ((key, Obj sp) # rest) =
     (case map_of object key of
        None \<Rightarrow>
          (case baseMerge h [] sp of
             (h1, nv) \<Rightarrow> baseMerge h1 (assignValue object key (Obj nv)) rest)
      | Some (Obj dp) \<Rightarrow>
          (case baseMerge h dp sp of
             (h1, nv) \<Rightarrow> baseMerge h1 (assignValue object key (Obj nv)) rest)
      | Some (Obs b) \<Rightarrow>
          (case baseMerge h (propsOf h b) sp of
             (h1, nv) \<Rightarrow>
               baseMerge (h1[b := (h1 ! b)\<lparr>props := nv\<rparr>])
                 (assignValue object key (Obs b)) rest))"

fun ownProps :: "'v observable list \<Rightarrow> node \<Rightarrow> (string \<times> node) list" where
  "ownProps h (Obj ps) = ps"
| "ownProps h (Obs a) = propsOf h a"

text \<open>\<^verbatim>\<open>merge(object, ...sources)\<close>: the sources are merged in from left to right.\<close>

definition merge ::
  "'v observable list \<Rightarrow> (string \<times> node) list \<Rightarrow> node list
     \<Rightarrow> 'v observable list \<times> (string \<times> node) list" where
  "merge h object sources =
     fold (\<lambda>source (h', object'). baseMerge h' object' (ownProps h' source)) sources (h, object)"

fun getProp :: "'v observable list \<Rightarrow> node \<Rightarrow> string \<Rightarrow> node option" where
  "getProp h (Obj ps) key = map_of ps key"
| "getProp h (Obs a) key = map_of (propsOf h a) key"

text \<open>
  \<^verbatim>\<open>baseGet\<close>: follow the keys while the object is defined. \<^verbatim>\<open>get\<close> returns
  \<^verbatim>\<open>undefined\<close> (\<open>None\<close>) for an empty path
  (\<^verbatim>\<open>(index && index == length) ? object : undefined\<close>).
\<close>

fun baseGet :: "'v observable list \<Rightarrow> node \<Rightarrow> string list \<Rightarrow> node option" where
  "baseGet h object [] = Some object"
| "baseGet h object (key # path) =
     (case getProp h object key of None \<Rightarrow> None | Some v \<Rightarrow> baseGet h v path)"

definition get :: "'v observable list \<Rightarrow> (string \<times> node) list \<Rightarrow> string list \<Rightarrow> node option" where
  "get h object path = (if path = [] then None else baseGet h (Obj object) path)"

text \<open>
  \<^verbatim>\<open>castPath\<close> for a string path: a string that is itself a key of the object is one
  segment (\<^verbatim>\<open>isKey\<close>); otherwise the string is cut at every dot. The bracket notation
  of lodash paths (\<^verbatim>\<open>a[0]\<close>, \<^verbatim>\<open>a["b"]\<close>) is not modelled.
\<close>

definition castPath :: "(string \<times> node) list \<Rightarrow> string \<Rightarrow> string list" where
  "castPath object pathString =
     (if pathString \<in> fst ` set object then [pathString] else split CHR ''.'' pathString)"

text \<open>\<^verbatim>\<open>item.reduceRight((obj, elem) => ({ [elem]: obj }), leaf)\<close>\<close>

definition entryOf :: "string list \<Rightarrow> node \<Rightarrow> node" where
  "entryOf item leaf = foldr (\<lambda>elem obj. Obj [(elem, obj)]) item leaf"

subsection \<open>The service state\<close>

text \<open>
  A call descriptor as handed to the watcher. A return-key transform is only passed on,
  never applied here, so its type \<open>'t\<close> is left open; \<^verbatim>\<open>[key, cb].filter(x => x)\<close>
  keeps the transform when there is one. Contract addresses and call arguments are
  strings.
\<close>

record 't descriptor =
  target :: "string option"
  call :: "string list"
  returns :: "(string \<times> 't option) list"

text \<open>
  The watcher of \<^verbatim>\<open>@makerdao/multicall\<close>, as far as this service uses it: its list of
  calls (changed by \<^verbatim>\<open>tap\<close>) and the number of listeners added by \<^verbatim>\<open>subscribe\<close>.
\<close>

record 't watcher =
  calls :: "'t descriptor list"
  subscribers :: nat

text \<open>
  The fields of the class. \<open>rootObservable\<close> is the replay buffer of
  \<^verbatim>\<open>this._rootObservable\<close>. The source has two distinct fields \<^verbatim>\<open>_rootSubscription\<close>
  (set to \<^verbatim>\<open>null\<close> by the constructor, read by \<^verbatim>\<open>startObservable\<close>) and
  \<^verbatim>\<open>_rootSubcription\<close> (written by \<^verbatim>\<open>startObservable\<close>).
\<close>

record ('v, 't) service =
  watcher :: "'t watcher option"
  rootObservable :: "'v event list"
  rootSubscription :: "nat option"
  rootSubcription :: "nat option"
  observableStore :: "(string \<times> node) list"
  heap :: "'v observable list"

record 't logical_schema =
  contractName :: string
  contractCall :: string
  callArgs :: "(string \<times> (string \<Rightarrow> string) option) list"
  callArgsOverrides :: "string list option"
  returnKeys :: "(string \<times> 't option) list"
  observableKeys :: "string list list"

text \<open>
  A derived schema \<^verbatim>\<open>{ observableKeys, dependencies, fn }\<close>; its \<^verbatim>\<open>observableKeys\<close> is
  one path, here \<open>observableKeysD\<close>. \<open>fn\<close> receives the resolved dependencies
  (references into the heap) and returns a new stream.
\<close>

record 'v derived_schema =
  observableKeysD :: "string list"
  dependencies :: "string list list"
  fn :: "'v observable list \<Rightarrow> node list \<Rightarrow> 'v event list \<Rightarrow> 'v list"

definition constructor :: "('v, 't) service" where
  "constructor =
     \<lparr>watcher = None, rootObservable = [], rootSubscription = None,
      rootSubcription = None, observableStore = [], heap = []\<rparr>"

text \<open>
  \<^verbatim>\<open>createWatcher\<close>: without a web3 provider an empty or missing \<^verbatim>\<open>rpcUrl\<close> throws;
  otherwise a watcher with an empty call list replaces the current one.
\<close>

definition createWatcher ::
  "bool \<Rightarrow> string option \<Rightarrow> ('v, 't) service \<Rightarrow> (error + 't watcher) \<times> ('v, 't) service" where
  "createWatcher useWeb3Provider rpcUrl s =
     (if \<not> useWeb3Provider \<and> (rpcUrl = None \<or> rpcUrl = Some '''')
      then (Inl RpcUrlUnavailable, s)
      else (let w = \<lparr>calls = [], subscribers = 0\<rparr>
            in (Inr w, s\<lparr>watcher := Some w\<rparr>)))"

text \<open>\<^verbatim>\<open>watcher.subscribe(listener)\<close> adds a listener and returns its handle.\<close>

definition watcherSubscribe :: "'t watcher \<Rightarrow> nat \<times> 't watcher" where
  "watcherSubscribe w = (subscribers w, w\<lparr>subscribers := Suc (subscribers w)\<rparr>)"

text \<open>\<^verbatim>\<open>this._rootObservable.next(updates)\<close>\<close>

definition next_event :: "'v event \<Rightarrow> ('v, 't) service \<Rightarrow> ('v, 't) service" where
  "next_event e s = s\<lparr>rootObservable := rootObservable s @ [e]\<rparr>"

text \<open>
  The watcher delivering one batch of updates: every listener receives every update, and
  every listener of this service is the forwarder installed by \<^verbatim>\<open>startObservable\<close>.
\<close>

definition watcherUpdates :: "'v event list \<Rightarrow> ('v, 't) service \<Rightarrow> ('v, 't) service" where
  "watcherUpdates updates s =
     (case watcher s of
        None \<Rightarrow> s
      | Some w \<Rightarrow> ((\<lambda>s'. fold next_event updates s') ^^ subscribers w) s)"

datatype stream_ref = RootObservable

subsection \<open>startObservable, getObservable, disconnect\<close>

definition startObservable :: "('v, 't) service \<Rightarrow> (error + stream_ref) \<times> ('v, 't) service" where
  "startObservable s =
     (case watcher s of
        None \<Rightarrow> (Inl WatcherNotDefined, s)
      | Some w \<Rightarrow>
          if rootSubscription s = None
          then (case watcherSubscribe w of
                  (handle, w') \<Rightarrow>
                    (Inr RootObservable, s\<lparr>rootSubcription := Some handle, watcher := Some w'\<rparr>))
          else (Inr RootObservable, s))"

definition getObservable :: "('v, 't) service \<Rightarrow> string \<Rightarrow> node option" where
  "getObservable s pathString =
     get (heap s) (observableStore s) (castPath (observableStore s) pathString)"

text \<open>The body of \<^verbatim>\<open>disconnect\<close> is the comment \<^verbatim>\<open>// TODO\<close>.\<close>

definition disconnect :: "('v, 't) service \<Rightarrow> ('v, 't) service" where
  "disconnect s = s"

subsection \<open>registerLogicalSchema\<close>

text \<open>
  \<^verbatim>\<open>this._rootObservable.pipe(filter(({ type }) => type === key), map(({ value }) => value))\<close>
\<close>

definition filteredObservable :: "string \<Rightarrow> 'v event list \<Rightarrow> 'v list" where
  "filteredObservable key events = map val (filter (\<lambda>e. type e = key) events)"

text \<open>Creating a stream object allocates a heap cell without properties of its own.\<close>

definition newObservable ::
  "('v event list \<Rightarrow> 'v list) \<Rightarrow> ('v, 't) service \<Rightarrow> nat \<times> ('v, 't) service" where
  "newObservable f s = (length (heap s), s\<lparr>heap := heap s @ [\<lparr>emits = f, props = []\<rparr>]\<rparr>)"

text \<open>
  \<^verbatim>\<open>this.observableStore = merge({}, this.observableStore, path.reduceRight(..., stream))\<close>,
  the assignment at the end of both registration methods.
\<close>

definition mergeEntry :: "string list \<Rightarrow> nat \<Rightarrow> ('v, 't) service \<Rightarrow> ('v, 't) service" where
  "mergeEntry path a s =
     (case merge (heap s) [] [Obj (observableStore s), entryOf path (Obs a)] of
        (h, store) \<Rightarrow> s\<lparr>observableStore := store, heap := h\<rparr>)"

definition addStream ::
  "('v event list \<Rightarrow> 'v list) \<Rightarrow> string list \<Rightarrow> ('v, 't) service \<Rightarrow> ('v, 't) service" where
  "addStream f path s = (case newObservable f s of (a, s1) \<Rightarrow> mergeEntry path a s1)"

text \<open>
  The body of \<^verbatim>\<open>observableKeys.forEach((item, idx) => ...)\<close>. The template literal of the
  \<^verbatim>\<open>log\<close> call reads \<^verbatim>\<open>processedReturnKeys[idx][0]\<close> before the store is assigned, so an
  index beyond the return keys raises a \<open>TypeError\<close> and leaves the store as it was.
\<close>

definition registerObservableKey ::
  "(string \<times> 't option) list \<Rightarrow> string list \<Rightarrow> nat \<Rightarrow> ('v, 't) service
     \<Rightarrow> (error + unit) \<times> ('v, 't) service" where
  "registerObservableKey processedReturnKeys item idx s =
     (if idx < length processedReturnKeys
      then (Inr (), addStream (filteredObservable (fst (processedReturnKeys ! idx))) item s)
      else (Inl TypeError, s))"

fun forEachObservableKey ::
  "(string \<times> 't option) list \<Rightarrow> nat \<Rightarrow> string list list \<Rightarrow> ('v, 't) service
     \<Rightarrow> (error + unit) \<times> ('v, 't) service" where
  "forEachObservableKey prk idx [] s = (Inr (), s)"
| "forEachObservableKey prk idx (item # items) s =
     (case registerObservableKey prk item idx s of
        (Inl e, s') \<Rightarrow> (Inl e, s')
      | (Inr _, s') \<Rightarrow> forEachObservableKey prk (Suc idx) items s')"

text \<open>
  \<^verbatim>\<open>callArgsOverrides ? callArgsOverrides.join('.') : callArgs.map(a => a[0]).join('.')\<close>;
  an array, even an empty one, is truthy.
\<close>

definition callArgsIdentifiers :: "'t logical_schema \<Rightarrow> string" where
  "callArgsIdentifiers e =
     (case callArgsOverrides e of
        Some overrides \<Rightarrow> join ''.'' overrides
      | None \<Rightarrow> join ''.'' (map fst (callArgs e)))"

text \<open>
  \<^verbatim>\<open>`${contractName}.${callFnName}.${callArgsIdentifiers}`\<close>; \<^verbatim>\<open>callFnName\<close> is an array,
  which a template literal renders joined by commas.
\<close>

definition callKeyStructure :: "'t logical_schema \<Rightarrow> string list \<Rightarrow> string" where
  "callKeyStructure e fnName =
     contractName e @ ''.'' @ join '','' fnName @ ''.'' @ callArgsIdentifiers e"

definition processedCallArgs :: "'t logical_schema \<Rightarrow> string list" where
  "processedCallArgs e =
     map (\<lambda>(arg, cb). case cb of None \<Rightarrow> arg | Some f \<Rightarrow> f arg) (callArgs e)"

definition processedReturnKeys :: "'t logical_schema \<Rightarrow> string list \<Rightarrow> (string \<times> 't option) list" where
  "processedReturnKeys e fnName =
     map (\<lambda>(k, cb). (callKeyStructure e fnName @ ''.'' @ k, cb)) (returnKeys e)"

text \<open>The callback of \<^verbatim>\<open>schemas.reduce\<close> for one schema; the result is the new descriptor.\<close>

definition reduceStep ::
  "(string \<Rightarrow> string option) \<Rightarrow> 't logical_schema \<Rightarrow> ('v, 't) service
     \<Rightarrow> (error + 't descriptor) \<times> ('v, 't) service" where
  "reduceStep addresses e s =
     (case destructureContractCall (contractCall e) of
        Inl err \<Rightarrow> (Inl err, s)
      | Inr sig \<Rightarrow>
          if length (callTypes sig) \<noteq> length (callArgs e) then (Inl ArityMismatch, s)
          else if length (returnTypes sig) \<noteq> length (returnKeys e) then (Inl ArityMismatch, s)
          else (case forEachObservableKey (processedReturnKeys e (callFnName sig)) 0
                       (observableKeys e) s of
                  (Inl err, s') \<Rightarrow> (Inl err, s')
                | (Inr _, s') \<Rightarrow>
                    (Inr \<lparr>target = addresses (contractName e),
                          call = contractCall e # processedCallArgs e,
                          returns = processedReturnKeys e (callFnName sig)\<rparr>, s')))"

fun reduceSchemas ::
  "(string \<Rightarrow> string option) \<Rightarrow> 't logical_schema list \<Rightarrow> 't descriptor list
     \<Rightarrow> ('v, 't) service \<Rightarrow> (error + 't descriptor list) \<times> ('v, 't) service" where
  "reduceSchemas addresses [] acc s = (Inr acc, s)"
| "reduceSchemas addresses (e # es) acc s =
     (case reduceStep addresses e s of
        (Inl err, s') \<Rightarrow> (Inl err, s')
      | (Inr d, s') \<Rightarrow> reduceSchemas addresses es (acc @ [d]) s')"

text \<open>\<^verbatim>\<open>addresses.MDAI = addresses.MCD_DAI; addresses.MWETH = addresses.ETH;\<close>\<close>

definition withAliases :: "(string \<Rightarrow> string option) \<Rightarrow> string \<Rightarrow> string option" where
  "withAliases addresses =
     (addresses(''MDAI'' := addresses ''MCD_DAI''))(''MWETH'' := addresses ''ETH'')"

text \<open>
  \<^verbatim>\<open>this._watcher.tap(calls => [...calls, ...schemas.reduce(...)])\<close>: the watcher calls the
  function at once and stores the list it returns. The address table comes from the
  smart-contract service and is a parameter. Without a watcher the call of
  \<^verbatim>\<open>this._watcher.tap\<close> is a \<open>TypeError\<close>. When the reduction throws, \<^verbatim>\<open>tap\<close> never
  gets a list, so the call list stays as it was, while the store keeps what the
  reduction had assigned before it threw.
\<close>

definition registerLogicalSchema ::
  "(string \<Rightarrow> string option) \<Rightarrow> 't logical_schema list \<Rightarrow> ('v, 't) service
     \<Rightarrow> (error + (string \<times> node) list) \<times> ('v, 't) service" where
  "registerLogicalSchema addresses schemas s =
     (case watcher s of
        None \<Rightarrow> (Inl TypeError, s)
      | Some w \<Rightarrow>
          (case reduceSchemas (withAliases addresses) schemas [] s of
             (Inl err, s') \<Rightarrow> (Inl err, s')
           | (Inr ds, s') \<Rightarrow>
               (Inr (observableStore s'),
                s'\<lparr>watcher := Some (w\<lparr>calls := calls w @ ds\<rparr>)\<rparr>)))"

subsection \<open>registerDerivedSchema\<close>

text \<open>
  \<^verbatim>\<open>!dependentObservables.some(x => !!x === false)\<close>: every registry value is an object,
  hence truthy, so a dependency counts as missing exactly when the lookup is
  \<^verbatim>\<open>undefined\<close>.
\<close>

definition registerDerived :: "'v derived_schema \<Rightarrow> ('v, 't) service \<Rightarrow> ('v, 't) service" where
  "registerDerived e s =
     (case those (map (\<lambda>d. getObservable s (join ''.'' d)) (dependencies e)) of
        None \<Rightarrow> s
      | Some dependentObservables \<Rightarrow>
          addStream (fn e (heap s) dependentObservables) (observableKeysD e) s)"

definition registerDerivedSchema ::
  "'v derived_schema list \<Rightarrow> ('v, 't) service \<Rightarrow> ('v, 't) service" where
  "registerDerivedSchema schemas s = fold registerDerived schemas s"

subsection \<open>Observing the registry\<close>

text \<open>What a subscriber of the stream registered at a path has received so far.\<close>

definition observe :: "('v, 't) service \<Rightarrow> string list \<Rightarrow> 'v list option" where
  "observe s path =
     (case get (heap s) (observableStore s) path of
        Some (Obs a) \<Rightarrow>
          if a < length (heap s) then Some (emits (heap s ! a) (rootObservable s)) else None
      | _ \<Rightarrow> None)"

subsection \<open>Notions used to state the properties\<close>

text \<open>A name or type token of a call signature: not empty, free of the three delimiters.\<close>

definition valid_token :: "string \<Rightarrow> bool" where
  "valid_token t \<longleftrightarrow> t \<noteq> [] \<and> CHR ''('' \<notin> set t \<and> CHR '')'' \<notin> set t \<and> CHR '','' \<notin> set t"

text \<open>The text \<^verbatim>\<open>f(a,b)(c,d)\<close> of a signature with name \<open>f\<close>.\<close>

definition signature_text :: "string \<Rightarrow> string list \<Rightarrow> string list \<Rightarrow> string" where
  "signature_text f args rets =
     f @ ''('' @ join '','' args @ '')'' @ ''('' @ join '','' rets @ '')''"

text \<open>
  A schema entry that passes every check of one reduction step: the signature parses, both
  arities agree, and no observable key lies beyond the return keys.
\<close>

definition validEntry :: "'t logical_schema \<Rightarrow> bool" where
  "validEntry e \<longleftrightarrow>
     (case destructureContractCall (contractCall e) of
        Inl _ \<Rightarrow> False
      | Inr sig \<Rightarrow>
          length (callTypes sig) = length (callArgs e)
          \<and> length (returnTypes sig) = length (returnKeys e)
          \<and> length (observableKeys e) \<le> length (returnKeys e))"

definition parsedFnName :: "'t logical_schema \<Rightarrow> string list" where
  "parsedFnName e =
     (case destructureContractCall (contractCall e) of Inl _ \<Rightarrow> [] | Inr sig \<Rightarrow> callFnName sig)"

text \<open>
  The specification's Call Key \<^verbatim>\<open>{contractName}.{fnName}.{argIdentifiers}\<close>, where the
  identifiers are the overrides when present and else the first component of each call
  argument, joined by dots, and the specification's call descriptor
  \<^verbatim>\<open>{ target, call: [contractCall, ...transformed args], returns: [key, transform?] pairs }\<close>
  for a table \<open>resolve\<close> of contract addresses. The specification resolves a contract name
  in the address table of the contract registry with two aliases added: the stable-token
  alias \<^verbatim>\<open>MDAI\<close> stands for \<^verbatim>\<open>MCD_DAI\<close> and the wrapped-native-asset alias \<^verbatim>\<open>MWETH\<close> for
  \<^verbatim>\<open>ETH\<close>.
\<close>

definition specCallKey :: "'t logical_schema \<Rightarrow> string" where
  "specCallKey e =
     contractName e @ ''.'' @ join '','' (parsedFnName e) @ ''.''
       @ join ''.'' (case callArgsOverrides e of Some ids \<Rightarrow> ids | None \<Rightarrow> map fst (callArgs e))"

definition specResolve :: "(string \<Rightarrow> string option) \<Rightarrow> string \<Rightarrow> string option" where
  "specResolve addresses name =
     (if name = ''MDAI'' then addresses ''MCD_DAI''
      else if name = ''MWETH'' then addresses ''ETH''
      else addresses name)"

definition specDescriptor :: "(string \<Rightarrow> string option) \<Rightarrow> 't logical_schema \<Rightarrow> 't descriptor" where
  "specDescriptor resolve e =
     \<lparr>target = resolve (contractName e),
      call = contractCall e # map (\<lambda>(arg, f). case f of None \<Rightarrow> arg | Some g \<Rightarrow> g arg) (callArgs e),
      returns = map (\<lambda>(k, t). (specCallKey e @ ''.'' @ k, t)) (returnKeys e)\<rparr>"

text \<open>Every plain object of a node has each key once, as a JavaScript object has.\<close>

fun distinctKeys :: "node \<Rightarrow> bool" where
  "distinctKeys (Obs a) = True"
| "distinctKeys (Obj ps) = (distinct (map fst ps) \<and> list_all (\<lambda>p. distinctKeys (snd p)) ps)"

text \<open>
  The registry is a tree whose streams are leaves as far as a path is concerned: no
  proper, non-empty beginning of the path leads to a stream.
\<close>

fun plainRoute :: "(string \<times> node) list \<Rightarrow> string list \<Rightarrow> bool" where
  "plainRoute object [] = True"
| "plainRoute object [key] = True"
| "plainRoute object (key # key' # path) =
     (case map_of object key of
        None \<Rightarrow> True
      | Some (Obs b) \<Rightarrow> False
      | Some (Obj dp) \<Rightarrow> plainRoute dp (key' # path))"

text \<open>
  The registry has each key once, every path of the list is non-empty and leads through
  plain objects only, and no path of the list properly extends another one.
\<close>

definition freeRoutes :: "('v, 't) service \<Rightarrow> string list list \<Rightarrow> bool" where
  "freeRoutes s paths \<longleftrightarrow>
     distinctKeys (Obj (observableStore s))
     \<and> (\<forall>p\<in>set paths. p \<noteq> [] \<and> plainRoute (observableStore s) p)
     \<and> (\<forall>p\<in>set paths. \<forall>q\<in>set paths. \<not> strict_prefix p q)"

text \<open>The registry holds, at a path, a stream object that emits as \<open>f\<close> says.\<close>

definition registered :: "('v, 't) service \<Rightarrow> string list \<Rightarrow> ('v event list \<Rightarrow> 'v list) \<Rightarrow> bool" where
  "registered s path f \<longleftrightarrow>
     (\<exists>a. get (heap s) (observableStore s) path = Some (Obs a)
          \<and> a < length (heap s) \<and> emits (heap s ! a) = f)"

text \<open>The closed form of merging a one-path entry into an object along plain objects.\<close>

fun insertAt :: "(string \<times> node) list \<Rightarrow> string \<Rightarrow> string list \<Rightarrow> node \<Rightarrow> (string \<times> node) list" where
  "insertAt object key [] leaf = assignValue object key leaf"
| "insertAt object key (key' # path) leaf =
     (case map_of object key of
        Some (Obj dp) \<Rightarrow> assignValue object key (Obj (insertAt dp key' path leaf))
      | _ \<Rightarrow> assignValue object key (entryOf (key' # path) leaf))"

text \<open>Two states agree on everything but the registry and the heap.\<close>

definition sameService :: "('v, 't) service \<Rightarrow> ('v, 't) service \<Rightarrow> bool" where
  "sameService s s' \<longleftrightarrow>
     watcher s' = watcher s \<and> rootObservable s' = rootObservable s
     \<and> rootSubscription s' = rootSubscription s \<and> rootSubcription s' = rootSubcription s"

text \<open>
  The second heap is the first one followed by new stream objects that have no
  properties of their own: no existing stream object has changed.
\<close>

definition heapExtends :: "'v observable list \<Rightarrow> 'v observable list \<Rightarrow> bool" where
  "heapExtends h h' \<longleftrightarrow>
     length h \<le> length h' \<and> take (length h) h' = h
     \<and> list_all (\<lambda>c. props c = []) (drop (length h) h')"

text \<open>
  A registry that is a tree. \<open>shaped h n F\<close> says that below the node \<open>n\<close> every object
  has each key once and every stream object is allocated in the heap \<open>h\<close> and reached
  along one path only, the properties written into stream objects included; \<open>F\<close> is the
  set of the stream objects reached. \<open>shapedProps\<close> says the same of a property list.
\<close>

inductive shaped :: "'v observable list \<Rightarrow> node \<Rightarrow> nat set \<Rightarrow> bool"
  and shapedProps :: "'v observable list \<Rightarrow> (string \<times> node) list \<Rightarrow> nat set \<Rightarrow> bool"
  for h :: "'v observable list" where
  shaped_Obs: "b < length h \<Longrightarrow> shapedProps h (props (h ! b)) F \<Longrightarrow> b \<notin> F \<Longrightarrow> shaped h (Obs b) (insert b F)"
| shaped_Obj: "shapedProps h ps F \<Longrightarrow> shaped h (Obj ps) F"
| shaped_Nil: "shapedProps h [] {}"
| shaped_Cons: "k \<notin> fst ` set ps \<Longrightarrow> shaped h v F1 \<Longrightarrow> shapedProps h ps F2 \<Longrightarrow> F1 \<inter> F2 = {}
     \<Longrightarrow> shapedProps h ((k, v) # ps) (F1 \<union> F2)"

code_pred (modes: i \<Rightarrow> i \<Rightarrow> o \<Rightarrow> bool) shaped .

text \<open>
  The registry of a service state is such a tree. It is one in the constructor's state,
  and both registration methods keep it one.
\<close>

definition wellShaped :: "('v, 't) service \<Rightarrow> bool" where
  "wellShaped s \<longleftrightarrow> (\<exists>F. shapedProps (heap s) (observableStore s) F)"

text \<open>Every path of the list is non-empty and none properly extends another one.\<close>

definition apartRoutes :: "string list list \<Rightarrow> bool" where
  "apartRoutes paths \<longleftrightarrow> (\<forall>p\<in>set paths. p \<noteq> [] \<and> (\<forall>q\<in>set paths. \<not> strict_prefix p q))"

subsection \<open>Example inputs\<close>

text \<open>
  A service whose watcher has been created, an address table, the schema of the
  specification's example, a schema that uses an alias, an argument function, overrides
  and a return transform, a schema with one call argument too many, a schema that uses
  the other alias, a schema whose signature has no return type, a schema whose second
  observable key begins its first, a schema with the same observable key twice, a schema
  that registers a stream directly under \<^verbatim>\<open>x\<close>, and a derived schema that doubles the
  values of \<^verbatim>\<open>x.balance\<close>.
\<close>

definition serviceWithWatcher :: "(int, unit) service" where
  "serviceWithWatcher = snd (createWatcher True None constructor)"

definition exampleAddresses :: "string \<Rightarrow> string option" where
  "exampleAddresses = [''X'' \<mapsto> ''0x01'', ''MCD_DAI'' \<mapsto> ''0xda1'', ''ETH'' \<mapsto> ''0xeee'']"

definition exampleSchema :: "unit logical_schema" where
  "exampleSchema =
     \<lparr>contractName = ''X'', contractCall = ''bal(addr)(uint)'',
      callArgs = [(''0xabc'', None)], callArgsOverrides = None,
      returnKeys = [(''balance'', None)], observableKeys = [[''x'', ''balance'']]\<rparr>"

definition aliasSchema :: "unit logical_schema" where
  "aliasSchema =
     \<lparr>contractName = ''MDAI'', contractCall = ''allowance(address,address)(uint256)'',
      callArgs = [(''0xabc'', None), (''0xdef'', Some (\<lambda>a. a @ ''00''))],
      callArgsOverrides = Some [''me'', ''proxy''],
      returnKeys = [(''allowance'', Some ())], observableKeys = [[''dai'', ''allowance'']]\<rparr>"

definition mismatchSchema :: "unit logical_schema" where
  "mismatchSchema =
     \<lparr>contractName = ''X'', contractCall = ''total()(uint)'',
      callArgs = [(''0xabc'', None)], callArgsOverrides = None,
      returnKeys = [(''total'', None)], observableKeys = [[''x'', ''total'']]\<rparr>"

definition wethSchema :: "unit logical_schema" where
  "wethSchema =
     \<lparr>contractName = ''MWETH'', contractCall = ''balanceOf(address)(uint256)'',
      callArgs = [(''0xabc'', None)], callArgsOverrides = None,
      returnKeys = [(''weth'', None)], observableKeys = [[''weth'']]\<rparr>"

definition noReturnSchema :: "unit logical_schema" where
  "noReturnSchema =
     \<lparr>contractName = ''X'', contractCall = ''f()()'',
      callArgs = [], callArgsOverrides = None,
      returnKeys = [], observableKeys = []\<rparr>"

definition shadowSchema :: "unit logical_schema" where
  "shadowSchema =
     \<lparr>contractName = ''X'', contractCall = ''bal(addr)(uint,uint)'',
      callArgs = [(''0xabc'', None)], callArgsOverrides = None,
      returnKeys = [(''balance'', None), (''total'', None)],
      observableKeys = [[''x'', ''balance''], [''x'']]\<rparr>"

definition twiceSchema :: "unit logical_schema" where
  "twiceSchema =
     \<lparr>contractName = ''X'', contractCall = ''bal(addr)(uint,uint)'',
      callArgs = [(''0xabc'', None)], callArgsOverrides = None,
      returnKeys = [(''balance'', None), (''total'', None)],
      observableKeys = [[''x'', ''balance''], [''x'', ''balance'']]\<rparr>"

definition leafSchema :: "unit logical_schema" where
  "leafSchema =
     \<lparr>contractName = ''X'', contractCall = ''bal(addr)(uint)'',
      callArgs = [(''0xabc'', None)], callArgsOverrides = None,
      returnKeys = [(''balance'', None)], observableKeys = [[''x'']]\<rparr>"

definition doubledSchema :: "int derived_schema" where
  "doubledSchema =
     \<lparr>observableKeysD = [''x'', ''doubled''], dependencies = [[''x'', ''balance'']],
      fn = (\<lambda>h deps events.
              case deps of [Obs a] \<Rightarrow> map (\<lambda>v. 2 * v) (emits (h ! a) events) | _ \<Rightarrow> [])\<rparr>"

lemmas example_defs =
  serviceWithWatcher_def createWatcher_def constructor_def exampleAddresses_def Let_def
  exampleSchema_def aliasSchema_def mismatchSchema_def leafSchema_def doubledSchema_def
  wethSchema_def noReturnSchema_def shadowSchema_def twiceSchema_def
lemmas parse_defs = destructureContractCall_def callGroups_def stripParen_def
lemmas register_defs =
  registerLogicalSchema_def reduceStep_def registerObservableKey_def addStream_def
  newObservable_def mergeEntry_def merge_def entryOf_def processedReturnKeys_def
  processedCallArgs_def callKeyStructure_def callArgsIdentifiers_def withAliases_def
  filteredObservable_def

section \<open>The call-signature parser\<close>

lemma split_not_Nil: "split c s \<noteq> []"
  by (induction s) (auto simp: Let_def)

lemma split_no_sep: "c \<notin> set a \<Longrightarrow> split c a = [a]"
  by (induction a) (auto simp: Let_def)

lemma split_append_sep: "c \<notin> set a \<Longrightarrow> split c (a @ c # rest) = a # split c rest"
  by (induction a) (auto simp: Let_def)

lemma length_split: "length (split c s) = Suc (length (filter (\<lambda>x. x = c) s))"
proof (induction s)
  case Nil
  show ?case by simp
next
  case (Cons x xs)
  have "split c xs \<noteq> []" by (rule split_not_Nil)
  then have "length (tl (split c xs)) = length (split c xs) - 1" by simp
  with Cons show ?case by (simp add: Let_def)
qed

lemma set_join: "set (join sep ts) \<subseteq> set sep \<union> \<Union>(set ` set ts)"
  by (induction sep ts rule: join.induct) auto

lemma tokens_join:
  "\<forall>t\<in>set ts. t \<noteq> [] \<and> c \<notin> set t \<Longrightarrow>
     filter (\<lambda>x. x \<noteq> []) (split c (join [c] ts)) = ts"
proof (induction "[c]" ts rule: join.induct)
  case 1
  show ?case by simp
next
  case (2 x)
  then show ?case by (simp add: split_no_sep)
next
  case (3 x y ys)
  have "split c (x @ c # join [c] (y # ys)) = x # split c (join [c] (y # ys))"
    using 3 by (intro split_append_sep) simp
  with 3 show ?case by simp
qed

lemma stripParen_snoc: "stripParen (a @ '')'') = a"
  by (simp add: stripParen_def)

lemma stripParen_id: "CHR '')'' \<notin> set t \<Longrightarrow> stripParen t = t"
  by (cases t rule: rev_cases) (auto simp: stripParen_def)

lemma callGroups_signature_text:
  assumes f: "valid_token f"
    and args: "\<forall>t\<in>set args. valid_token t"
    and rets: "\<forall>t\<in>set rets. valid_token t"
  shows "callGroups (signature_text f args rets) = [[f], args, rets]"
proof -
  let ?A = "join '','' args" and ?R = "join '','' rets"
  have nA: "CHR ''('' \<notin> set (?A @ '')'')"
    using args set_join [of "'',''" args] by (auto simp: valid_token_def)
  have nR: "CHR ''('' \<notin> set (?R @ '')'')"
    using rets set_join [of "'',''" rets] by (auto simp: valid_token_def)
  have nf: "CHR ''('' \<notin> set f" using f by (simp add: valid_token_def)
  have "split CHR ''('' (f @ CHR ''('' # (?A @ '')'') @ CHR ''('' # (?R @ '')''))
        = f # split CHR ''('' ((?A @ '')'') @ CHR ''('' # (?R @ '')''))"
    using nf by (rule split_append_sep)
  also have "split CHR ''('' ((?A @ '')'') @ CHR ''('' # (?R @ '')''))
        = (?A @ '')'') # split CHR ''('' (?R @ '')'')"
    using nA by (rule split_append_sep)
  also have "split CHR ''('' (?R @ '')'') = [?R @ '')'']"
    using nR by (rule split_no_sep)
  finally have sp: "split CHR ''('' (signature_text f args rets) = [f, ?A @ '')'', ?R @ '')'']"
    by (simp add: signature_text_def)
  have tf: "filter (\<lambda>x. x \<noteq> []) (split CHR '','' (stripParen f)) = [f]"
    using f by (simp add: valid_token_def stripParen_id split_no_sep)
  have tA: "filter (\<lambda>x. x \<noteq> []) (split CHR '','' ?A) = args"
    using args by (intro tokens_join) (simp add: valid_token_def)
  have tR: "filter (\<lambda>x. x \<noteq> []) (split CHR '','' ?R) = rets"
    using rets by (intro tokens_join) (simp add: valid_token_def)
  show ?thesis
    unfolding callGroups_def sp using tf tA tR by (simp add: stripParen_snoc)
qed

text \<open>
  C8. A signature \<^verbatim>\<open>f(a,b)(c,d)\<close> built from valid tokens, with at least one return
  type, parses to the one-element name group \<open>[f]\<close>, the argument types and the return
  types in order. An empty argument group, as in \<^verbatim>\<open>f()(c)\<close>, is the case \<open>args = []\<close>:
  the empty fragment is discarded and \<open>callTypes\<close> is empty.
\<close>

theorem destructureContractCall_valid:
  assumes "valid_token f"
    and "\<forall>t\<in>set args. valid_token t"
    and "\<forall>t\<in>set rets. valid_token t"
    and "rets \<noteq> []"
  shows "destructureContractCall (signature_text f args rets)
           = Inr \<lparr>callFnName = [f], callTypes = args, returnTypes = rets\<rparr>"
proof -
  have "callGroups (signature_text f args rets) = [[f], args, rets]"
    using assms(1-3) by (rule callGroups_signature_text)
  with assms(4) show ?thesis
    by (simp add: destructureContractCall_def)
qed

theorem destructureContractCall_valid_witness:
  "destructureContractCall ''f(a,b)(c,d)''
     = Inr \<lparr>callFnName = [''f''], callTypes = [''a'', ''b''], returnTypes = [''c'', ''d'']\<rparr>
   \<and> destructureContractCall ''f()(c)''
     = Inr \<lparr>callFnName = [''f''], callTypes = [], returnTypes = [''c'']\<rparr>"
  using destructureContractCall_valid [of "''f''" "[''a'', ''b'']" "[''c'', ''d'']"]
    destructureContractCall_valid [of "''f''" "[]" "[''c'']"]
  by (simp add: valid_token_def signature_text_def)





section \<open>Merging one entry into the registry\<close>

text \<open>
  When the path of a new entry leads through plain objects only, the merge has a closed
  form, \<open>insertAt\<close>, and changes no stream object.
\<close>

lemma map_of_assignValue [simp]: "map_of (assignValue ps k v) = (map_of ps)(k \<mapsto> v)"
  by (induction ps k v rule: assignValue.induct) auto

lemma keys_assignValue [simp]: "fst ` set (assignValue ps k v) = insert k (fst ` set ps)"
  by (induction ps k v rule: assignValue.induct) auto

lemma assignValue_fresh: "k \<notin> fst ` set ps \<Longrightarrow> assignValue ps k v = ps @ [(k, v)]"
  by (induction ps k v rule: assignValue.induct) auto

lemma distinct_assignValue [simp]:
  "distinct (map fst (assignValue ps k v)) = distinct (map fst ps)"
  by (induction ps k v rule: assignValue.induct) (auto simp: image_iff)

lemma list_all_assignValue:
  "list_all P ps \<Longrightarrow> P (k, v) \<Longrightarrow> list_all P (assignValue ps k v)"
  by (induction ps k v rule: assignValue.induct) auto

lemma baseMerge_clone:
  "distinct (map fst ps) \<Longrightarrow> list_all (\<lambda>p. distinctKeys (snd p)) ps \<Longrightarrow>
   fst ` set acc \<inter> fst ` set ps = {} \<Longrightarrow> baseMerge h acc ps = (h, acc @ ps)"
proof (induction h acc ps rule: baseMerge.induct)
  case (1 h object)
  show ?case by simp
next
  case (2 h object key a rest)
  have fresh: "key \<notin> fst ` set object" using 2(4) by auto
  have "baseMerge h (assignValue object key (Obs a)) rest = (h, assignValue object key (Obs a) @ rest)"
    using 2(2-4) by (intro 2(1)) (auto simp: image_iff)
  with fresh show ?case by (simp add: assignValue_fresh)
next
  case (3 h object key sp rest)
  have fresh: "key \<notin> fst ` set object" using 3(9) by auto
  then have none: "map_of object key = None" by (simp add: map_of_eq_None_iff)
  have inner: "baseMerge h [] sp = (h, sp)"
    using 3(1) [OF none] 3(8) by simp
  have "baseMerge h (assignValue object key (Obj sp)) rest = (h, assignValue object key (Obj sp) @ rest)"
    using 3(7-9) by (intro 3(2) [OF none inner [symmetric]]) (auto simp: image_iff)
  with fresh none inner show ?case by (simp add: assignValue_fresh)
qed

lemma entryOf_Nil [simp]: "entryOf [] leaf = leaf"
  by (simp add: entryOf_def)

lemma entryOf_Cons [simp]: "entryOf (k # ks) leaf = Obj [(k, entryOf ks leaf)]"
  by (simp add: entryOf_def)

lemma distinctKeys_entryOf [simp]: "distinctKeys (entryOf path (Obs a))"
  by (induction path) auto

lemma baseMerge_entry:
  "plainRoute object (key # path) \<Longrightarrow>
     baseMerge h object [(key, entryOf path (Obs a))] = (h, insertAt object key path (Obs a))"
proof (induction path arbitrary: object key)
  case Nil
  show ?case by simp
next
  case (Cons k' path)
  show ?case
  proof (cases "map_of object key")
    case None
    have "baseMerge h [] [(k', entryOf path (Obs a))] = (h, [] @ [(k', entryOf path (Obs a))])"
      by (rule baseMerge_clone) auto
    with None show ?thesis by simp
  next
    case (Some v)
    show ?thesis
    proof (cases v)
      case (Obs b)
      with Some Cons.prems show ?thesis by simp
    next
      case (Obj dp)
      with Some Cons.prems have "plainRoute dp (k' # path)" by simp
      then have "baseMerge h dp [(k', entryOf path (Obs a))] = (h, insertAt dp k' path (Obs a))"
        by (rule Cons.IH)
      with Some Obj show ?thesis by simp
    qed
  qed
qed

lemma merge_entry:
  assumes "distinctKeys (Obj store)" and "plainRoute store (key # path)"
  shows "merge h [] [Obj store, entryOf (key # path) (Obs a)]
           = (h, insertAt store key path (Obs a))"
proof -
  have "baseMerge h [] store = (h, [] @ store)"
    using assms(1) by (intro baseMerge_clone) auto
  then show ?thesis
    using baseMerge_entry [OF assms(2)] by (simp add: merge_def)
qed

lemma baseGet_entryOf: "baseGet h (entryOf path leaf) path = Some leaf"
  by (induction path) auto

lemma baseGet_entryOf_off:
  "\<not> prefix q path \<Longrightarrow> \<not> prefix path q \<Longrightarrow> baseGet h (entryOf path leaf) q = None"
proof (induction path arbitrary: q)
  case Nil
  then show ?case by simp
next
  case (Cons k path)
  then show ?case by (cases q) auto
qed

lemma distinctKeys_entryOf_leaf: "distinctKeys leaf \<Longrightarrow> distinctKeys (entryOf path leaf)"
  by (induction path) auto

lemma distinctKeys_lookup:
  "distinctKeys (Obj object) \<Longrightarrow> map_of object key = Some v \<Longrightarrow> distinctKeys v"
  by (auto simp: list_all_iff dest!: map_of_SomeD)

lemma distinctKeys_assignValue:
  "distinctKeys (Obj object) \<Longrightarrow> distinctKeys v \<Longrightarrow> distinctKeys (Obj (assignValue object key v))"
  by (auto intro: list_all_assignValue)

lemma distinctKeys_insertAt:
  "distinctKeys (Obj object) \<Longrightarrow> distinctKeys leaf \<Longrightarrow>
     distinctKeys (Obj (insertAt object key path leaf))"
proof (induction object key path leaf rule: insertAt.induct)
  case (1 object key leaf)
  then show ?case by (simp del: distinctKeys.simps add: distinctKeys_assignValue)
next
  case (2 object key key' path leaf)
  have chain: "distinctKeys (entryOf (key' # path) leaf)"
    using 2(3) by (rule distinctKeys_entryOf_leaf)
  show ?case
  proof (cases "map_of object key")
    case None
    with 2(2) chain show ?thesis
      by (simp del: distinctKeys.simps entryOf_Cons add: distinctKeys_assignValue)
  next
    case (Some v)
    show ?thesis
    proof (cases v)
      case (Obs b)
      with Some 2(2) chain show ?thesis
        by (simp del: distinctKeys.simps entryOf_Cons add: distinctKeys_assignValue)
    next
      case (Obj dp)
      with Some 2(2) have "distinctKeys (Obj dp)" by (metis distinctKeys_lookup)
      then have "distinctKeys (Obj (insertAt dp key' path leaf))"
        using 2(3) by (rule 2(1) [OF Some Obj])
      with Some Obj 2(2) show ?thesis
        by (simp del: distinctKeys.simps add: distinctKeys_assignValue)
    qed
  qed
qed

lemma path_cases:
  obtains "q = []" | k where "q = [k]" | k k2 qs where "q = k # k2 # qs"
  by (metis list.exhaust)

lemma plainRoute_entryOf:
  "\<not> strict_prefix (key # path) q \<Longrightarrow> plainRoute [(key, entryOf path (Obs a))] q"
proof (induction path arbitrary: key q)
  case Nil
  then show ?case by (cases q rule: path_cases) auto
next
  case (Cons k' path)
  show ?case
  proof (cases q rule: path_cases)
    case (3 k k2 qs)
    then have q: "q = k # k2 # qs" by simp
    show ?thesis
    proof (cases "k = key")
      case True
      with q Cons.prems have "\<not> strict_prefix (k' # path) (k2 # qs)" by auto
      then have "plainRoute [(k', entryOf path (Obs a))] (k2 # qs)" by (rule Cons.IH)
      with q True show ?thesis by simp
    next
      case False
      with q show ?thesis by simp
    qed
  qed auto
qed

lemma plainRoute_insertAt:
  "plainRoute object q \<Longrightarrow> plainRoute object (key # path) \<Longrightarrow>
   \<not> strict_prefix (key # path) q \<Longrightarrow>
     plainRoute (insertAt object key path (Obs a)) q"
proof (induction object key path "Obs a" arbitrary: q rule: insertAt.induct)
  case (1 object key)
  show ?case
  proof (cases q rule: path_cases)
    case (3 k k2 qs)
    with 1 show ?thesis by (auto split: option.splits node.splits)
  qed auto
next
  case (2 object key key' path)
  show ?case
  proof (cases q rule: path_cases)
    case (3 k k2 qs)
    then have q: "q = k # k2 # qs" by simp
    show ?thesis
    proof (cases "k = key")
      case False
      with q 2(2) show ?thesis by (auto split: option.splits node.splits)
    next
      case True
      with q 2(4) have np: "\<not> strict_prefix (key' # path) (k2 # qs)" by auto
      show ?thesis
      proof (cases "map_of object key")
        case None
        with q True show ?thesis
          using plainRoute_entryOf [OF np, of a] by simp
      next
        case (Some v)
        show ?thesis
        proof (cases v)
          case (Obs b)
          with Some 2(3) show ?thesis by simp
        next
          case (Obj dp)
          with Some 2(2,3) q True
          have "plainRoute dp (k2 # qs)" "plainRoute dp (key' # path)" by auto
          from 2(1) [OF Some Obj this np] Some Obj q True show ?thesis by simp
        qed
      qed
    qed
  qed auto
qed

lemma baseGet_append_cell:
  "props c = [] \<Longrightarrow> baseGet (h @ [c]) n q = baseGet h n q"
proof (induction q arbitrary: n)
  case Nil
  show ?case by simp
next
  case (Cons k q)
  have "getProp (h @ [c]) n k = getProp h n k"
    using Cons.prems by (cases n) (auto simp: nth_append)
  with Cons show ?case by (simp split: option.splits)
qed

lemma addStream_closed:
  assumes "distinctKeys (Obj (observableStore s))" and "plainRoute (observableStore s) (k # ks)"
  shows "addStream f (k # ks) s =
           s\<lparr>observableStore := insertAt (observableStore s) k ks (Obs (length (heap s))),
             heap := heap s @ [\<lparr>emits = f, props = []\<rparr>]\<rparr>"
  using merge_entry [OF assms, of "heap s @ [\<lparr>emits = f, props = []\<rparr>]" "length (heap s)"]
  by (simp add: addStream_def newObservable_def mergeEntry_def del: entryOf_Cons)

lemma addStream_effect:
  assumes fr: "freeRoutes s paths" and p: "path \<in> set paths"
  shows "freeRoutes (addStream f path s) paths"
    and "heap (addStream f path s) = heap s @ [\<lparr>emits = f, props = []\<rparr>]"
proof -
  from fr p obtain k ks where path: "path = k # ks"
    by (cases path) (auto simp: freeRoutes_def)
  have dk: "distinctKeys (Obj (observableStore s))" and pr: "plainRoute (observableStore s) (k # ks)"
    using fr p path by (auto simp: freeRoutes_def)
  note closed = addStream_closed [OF dk pr, of f]
  show "heap (addStream f path s) = heap s @ [\<lparr>emits = f, props = []\<rparr>]"
    by (simp add: path closed)
  show "freeRoutes (addStream f path s) paths"
    unfolding freeRoutes_def
  proof (intro conjI ballI)
    show "distinctKeys (Obj (observableStore (addStream f path s)))"
      using distinctKeys_insertAt [OF dk, of "Obs (length (heap s))" k ks] by (simp add: path closed)
  next
    fix q assume q: "q \<in> set paths"
    with fr show "q \<noteq> []" by (simp add: freeRoutes_def)
    from fr p q have "\<not> strict_prefix (k # ks) q" "plainRoute (observableStore s) q"
      by (auto simp: freeRoutes_def path)
    then show "plainRoute (observableStore (addStream f path s)) q"
      using pr by (simp add: path closed plainRoute_insertAt)
  next
    fix p' q assume "p' \<in> set paths" "q \<in> set paths"
    with fr show "\<not> strict_prefix p' q" by (simp add: freeRoutes_def)
  qed
qed

section \<open>Registries that are trees\<close>

text \<open>
  In general the path of a new entry may lead through stream objects, which lodash
  treats as merge destinations. The lemmas of this section follow \<^verbatim>\<open>baseMerge\<close> through
  them, for registries that are trees.
\<close>

inductive_cases shaped_ObsE: "shaped h (Obs b) F"
inductive_cases shaped_ObjE: "shaped h (Obj ps) F"
inductive_cases shaped_NilE: "shapedProps h [] F"
inductive_cases shaped_ConsE: "shapedProps h ((k, v) # ps) F"

lemma shaped_bound:
  "shaped h n F \<Longrightarrow> \<forall>b\<in>F. b < length h"
  "shapedProps h ps F \<Longrightarrow> \<forall>b\<in>F. b < length h"
  by (induction rule: shaped_shapedProps.inducts) auto

lemma shaped_frame:
  "shaped h n F \<Longrightarrow> length h \<le> length h' \<Longrightarrow> \<forall>b\<in>F. props (h' ! b) = props (h ! b) \<Longrightarrow> shaped h' n F"
  "shapedProps h ps F \<Longrightarrow> length h \<le> length h' \<Longrightarrow> \<forall>b\<in>F. props (h' ! b) = props (h ! b) \<Longrightarrow> shapedProps h' ps F"
proof (induction rule: shaped_shapedProps.inducts)
  case (shaped_Obs b F)
  then show ?case by (auto intro!: shaped_shapedProps.intros)
next
  case (shaped_Obj ps F)
  then show ?case by (auto intro: shaped_shapedProps.intros)
next
  case shaped_Nil
  show ?case by (rule shaped_shapedProps.intros)
next
  case (shaped_Cons k ps v F1 F2)
  then show ?case by (auto intro!: shaped_shapedProps.intros)
qed

lemma shapedProps_eq: "shapedProps h ps F \<Longrightarrow> F = F' \<Longrightarrow> shapedProps h ps F'"
  by simp

lemma shaped_distinctKeys:
  "shaped h n F \<Longrightarrow> distinctKeys n"
  "shapedProps h ps F \<Longrightarrow> distinctKeys (Obj ps)"
  by (induction rule: shaped_shapedProps.inducts) auto

lemma shapedProps_lookup:
  "shapedProps h ps F \<Longrightarrow> map_of ps k = Some v \<Longrightarrow> \<exists>F1. F1 \<subseteq> F \<and> shaped h v F1"
proof (induction ps arbitrary: F)
  case Nil
  then show ?case by simp
next
  case (Cons p ps)
  obtain k0 v0 where p: "p = (k0, v0)" by (cases p)
  from Cons.prems(1) [unfolded p] obtain F1 F2 where
    F: "F = F1 \<union> F2" "shaped h v0 F1" "shapedProps h ps F2"
    by (rule shaped_ConsE)
  show ?case
  proof (cases "k0 = k")
    case True
    with Cons.prems(2) p F show ?thesis by auto
  next
    case False
    with Cons.prems(2) p have "map_of ps k = Some v" by simp
    from Cons.IH [OF F(3) this] F(1) show ?thesis by auto
  qed
qed

lemma shaped_getProp:
  assumes "shaped h n F" and "getProp h n k = Some v"
  shows "\<exists>F1. F1 \<subseteq> F \<and> shaped h v F1"
proof (cases n)
  case (Obs b)
  with assms(1) obtain G where G: "F = insert b G" "b < length h" "shapedProps h (props (h ! b)) G"
    by (auto elim: shaped_ObsE)
  with assms(2) Obs have "map_of (props (h ! b)) k = Some v" by simp
  from shapedProps_lookup [OF G(3) this] G(1) show ?thesis by auto
next
  case (Obj ps)
  with assms(1) have "shapedProps h ps F" by (auto elim: shaped_ObjE)
  with assms(2) Obj show ?thesis by (auto dest: shapedProps_lookup)
qed

lemma baseGet_frame:
  assumes "length h \<le> length h'"
  shows "shaped h n F \<Longrightarrow> \<forall>b\<in>F. props (h' ! b) = props (h ! b) \<Longrightarrow>
           baseGet h' n q = baseGet h n q"
proof (induction q arbitrary: n F)
  case Nil
  show ?case by simp
next
  case (Cons k q)
  have gp: "getProp h' n k = getProp h n k"
  proof (cases n)
    case (Obs b)
    with Cons.prems(1) have "b \<in> F" "b < length h" by (auto elim: shaped_ObsE)
    with Cons.prems(2) Obs assms show ?thesis by simp
  next
    case (Obj ps)
    then show ?thesis by simp
  qed
  show ?case
  proof (cases "getProp h n k")
    case None
    with gp show ?thesis by simp
  next
    case (Some v)
    from shaped_getProp [OF Cons.prems(1) Some] obtain F1 where
      "F1 \<subseteq> F" "shaped h v F1" by blast
    with Cons.IH [of v F1] Cons.prems(2) have "baseGet h' v q = baseGet h v q" by auto
    with gp Some show ?thesis by simp
  qed
qed

lemma shapedProps_split:
  "shapedProps h ps F \<Longrightarrow> map_of ps k = Some v \<Longrightarrow>
     \<exists>F1 F2. F = F1 \<union> F2 \<and> F1 \<inter> F2 = {} \<and> shaped h v F1
            \<and> shapedProps h (filter (\<lambda>p. fst p \<noteq> k) ps) F2"
proof (induction ps arbitrary: F)
  case Nil
  then show ?case by simp
next
  case (Cons p ps)
  obtain k0 v0 where p: "p = (k0, v0)" by (cases p)
  from Cons.prems(1) [unfolded p] obtain F1 F2 where
    F: "F = F1 \<union> F2" "k0 \<notin> fst ` set ps" "shaped h v0 F1" "shapedProps h ps F2" "F1 \<inter> F2 = {}"
    by (rule shaped_ConsE)
  show ?case
  proof (cases "k0 = k")
    case True
    with F(2) have "filter (\<lambda>p. fst p \<noteq> k) ps = ps" by (auto simp: filter_id_conv)
    with True Cons.prems(2) p F show ?thesis by auto
  next
    case False
    with Cons.prems(2) p have "map_of ps k = Some v" by simp
    from Cons.IH [OF F(4) this] obtain G1 G2 where
      G: "F2 = G1 \<union> G2" "G1 \<inter> G2 = {}" "shaped h v G1"
        "shapedProps h (filter (\<lambda>p. fst p \<noteq> k) ps) G2" by blast
    have "shapedProps h ((k0, v0) # filter (\<lambda>p. fst p \<noteq> k) ps) (F1 \<union> G2)"
      using F G by (intro shaped_Cons) auto
    with False p F G show ?thesis
      by (intro exI [of _ G1] exI [of _ "F1 \<union> G2"]) auto
  qed
qed

lemma shapedProps_without:
  "shapedProps h ps F \<Longrightarrow> map_of ps k = None \<Longrightarrow> filter (\<lambda>p. fst p \<noteq> k) ps = ps"
  by (auto simp: filter_id_conv map_of_eq_None_iff)

lemma shapedProps_assign:
  "shapedProps h (filter (\<lambda>p. fst p \<noteq> k) ps) F2 \<Longrightarrow> distinct (map fst ps) \<Longrightarrow>
   shaped h v F1 \<Longrightarrow> F1 \<inter> F2 = {} \<Longrightarrow> shapedProps h (assignValue ps k v) (F1 \<union> F2)"
proof (induction ps arbitrary: F2)
  case Nil
  from Nil.prems(1) have "F2 = {}" by (auto elim: shaped_NilE)
  moreover have "shapedProps h [(k, v)] (F1 \<union> {})"
    using Nil.prems(3) by (intro shaped_Cons shaped_Nil) auto
  ultimately show ?case by simp
next
  case (Cons p ps)
  obtain k0 v0 where p: "p = (k0, v0)" by (cases p)
  from Cons.prems(2) p have d: "k0 \<notin> fst ` set ps" "distinct (map fst ps)" by auto
  show ?case
  proof (cases "k0 = k")
    case True
    with d have "filter (\<lambda>p. fst p \<noteq> k) ps = ps" by (auto simp: filter_id_conv)
    with Cons.prems(1) True p have "shapedProps h ps F2" by simp
    with True p d Cons.prems(3,4) show ?thesis by (auto intro: shaped_Cons)
  next
    case False
    with Cons.prems(1) p obtain G1 G2 where
      G: "F2 = G1 \<union> G2" "shaped h v0 G1" "shapedProps h (filter (\<lambda>p. fst p \<noteq> k) ps) G2"
        "G1 \<inter> G2 = {}"
      by (auto elim: shaped_ConsE)
    from Cons.IH [OF G(3) d(2) Cons.prems(3)] Cons.prems(4) G(1)
    have "shapedProps h (assignValue ps k v) (F1 \<union> G2)" by auto
    then have "shapedProps h ((k0, v0) # assignValue ps k v) (G1 \<union> (F1 \<union> G2))"
      using d False G Cons.prems(4) by (intro shaped_Cons) auto
    with False p G(1) show ?thesis
      by (auto elim!: shapedProps_eq)
  qed
qed

lemma shapedProps_distinct: "shapedProps h ps F \<Longrightarrow> distinct (map fst ps)"
  using shaped_distinctKeys(2) by auto


lemma shapedProps_rest:
  assumes "shapedProps h d F"
  shows "\<exists>F1 F2. F = F1 \<union> F2 \<and> F1 \<inter> F2 = {}
            \<and> shapedProps h (filter (\<lambda>p. fst p \<noteq> k) d) F2
            \<and> (\<forall>v. map_of d k = Some v \<longrightarrow> shaped h v F1)"
proof (cases "map_of d k")
  case None
  with shapedProps_without [OF assms None] assms show ?thesis
    by (intro exI [of _ "{}"] exI [of _ F]) simp
next
  case (Some v)
  from shapedProps_split [OF assms Some] Some show ?thesis by auto
qed

lemma map_of_filter_other: "k' \<noteq> k \<Longrightarrow> map_of (filter (\<lambda>p. fst p \<noteq> k) d) k' = map_of d k'"
  by (induction d) auto

lemma assign_subtree:
  assumes rest: "shapedProps h (filter (\<lambda>p. fst p \<noteq> k) d) F2"
    and d: "distinct (map fst d)"
    and len: "length h \<le> length h'"
    and frame: "\<forall>c\<in>F2. props (h' ! c) = props (h ! c)"
    and new: "shaped h' v' G'" "G' \<inter> F2 = {}"
  shows "shapedProps h' (assignValue d k v') (G' \<union> F2)"
    and "k' \<noteq> k \<Longrightarrow> baseGet h' (Obj (assignValue d k v')) (k' # qs) = baseGet h (Obj d) (k' # qs)"
proof -
  have "shapedProps h' (filter (\<lambda>p. fst p \<noteq> k) d) F2"
    using rest len frame by (rule shaped_frame(2))
  then show "shapedProps h' (assignValue d k v') (G' \<union> F2)"
    using d new by (rule shapedProps_assign)
  show "baseGet h' (Obj (assignValue d k v')) (k' # qs) = baseGet h (Obj d) (k' # qs)"
    if "k' \<noteq> k"
  proof (cases "map_of d k'")
    case None
    with that show ?thesis by simp
  next
    case (Some v)
    with that have "map_of (filter (\<lambda>p. fst p \<noteq> k) d) k' = Some v"
      by (simp add: map_of_filter_other)
    from shapedProps_lookup [OF rest this] obtain G where G: "G \<subseteq> F2" "shaped h v G" by blast
    have "baseGet h' v qs = baseGet h v qs"
      using len G(2) by (rule baseGet_frame) (use G(1) frame in auto)
    with that Some show ?thesis by simp
  qed
qed

lemma shaped_fresh: "a < length h \<Longrightarrow> props (h ! a) = [] \<Longrightarrow> shaped h (Obs a) {a}"
  using shaped_Obs [of a h "{}"] by (simp add: shaped_Nil)

lemma shaped_entryOf:
  "shaped h leaf F \<Longrightarrow> shaped h (entryOf ks leaf) F"
proof (induction ks)
  case Nil
  then show ?case by simp
next
  case (Cons k ks)
  then have "shapedProps h [(k, entryOf ks leaf)] (F \<union> {})"
    by (intro shaped_Cons shaped_Nil) auto
  then show ?case by (simp add: shaped_Obj)
qed

text \<open>
  Merging a one-path entry whose leaf is a new stream object: the result is a tree
  again, holds the leaf at the path and resolves every path apart from it as before;
  every stream object outside the tree, and what every stream emits, stays as it was.
\<close>

lemma baseMerge_entry_shaped:
  assumes "shapedProps h d F" and "a \<notin> F" and "a < length h" and "props (h ! a) = []"
  shows "\<exists>h' d' F'. baseMerge h d [(k, entryOf ks (Obs a))] = (h', d')
        \<and> shapedProps h' d' F' \<and> F' \<subseteq> insert a F \<and> length h' = length h
        \<and> (\<forall>c. c \<notin> F \<longrightarrow> h' ! c = h ! c)
        \<and> (\<forall>c. emits (h' ! c) = emits (h ! c))
        \<and> baseGet h' (Obj d') (k # ks) = Some (Obs a)
        \<and> (\<forall>q. \<not> prefix (k # ks) q \<and> \<not> prefix q (k # ks) \<longrightarrow>
               baseGet h' (Obj d') q = baseGet h (Obj d) q)"
  using assms
proof (induction ks arbitrary: h d F k)
  case Nil
  from shapedProps_rest [OF Nil.prems(1), of k] obtain F1 F2 where
    F: "F = F1 \<union> F2" and rest: "shapedProps h (filter (\<lambda>p. fst p \<noteq> k) d) F2" by blast
  note dd = shapedProps_distinct [OF Nil.prems(1)]
  have leaf: "shaped h (Obs a) {a}" using Nil.prems(3,4) by (rule shaped_fresh)
  have disj: "{a} \<inter> F2 = {}" using Nil.prems(2) F by auto
  have fr0: "\<forall>c\<in>F2. props (h ! c) = props (h ! c)" by simp
  note A = assign_subtree [OF rest dd order_refl fr0 leaf disj]
  note 1 = A(1)
  have 2: "baseGet h (Obj (assignValue d k (Obs a))) q = baseGet h (Obj d) q"
    if "\<not> prefix [k] q" "\<not> prefix q [k]" for q
  proof -
    from that obtain k' qs where q: "q = k' # qs" "k' \<noteq> k" by (cases q) auto
    show ?thesis unfolding q(1) using q(2) by (rule A(2))
  qed
  show ?case
    using 1 2 F
    by (intro exI [of _ h] exI [of _ "assignValue d k (Obs a)"] exI [of _ "{a} \<union> F2"]) auto
next
  case (Cons k2 ks)
  let ?chain = "entryOf ks (Obs a)"
  from shapedProps_rest [OF Cons.prems(1), of k] obtain F1 F2 where
    F: "F = F1 \<union> F2" "F1 \<inter> F2 = {}"
    and rest: "shapedProps h (filter (\<lambda>p. fst p \<noteq> k) d) F2"
    and old: "\<And>v. map_of d k = Some v \<Longrightarrow> shaped h v F1" by blast
  note dd = shapedProps_distinct [OF Cons.prems(1)]
  have leaf: "shaped h (Obs a) {a}" using Cons.prems(3,4) by (rule shaped_fresh)
  have aF: "a \<notin> F1" "a \<notin> F2" using Cons.prems(2) F by auto
  consider (none) "map_of d k = None" | (obj) dp where "map_of d k = Some (Obj dp)"
    | (obs) b where "map_of d k = Some (Obs b)"
    by (metis node.exhaust option.exhaust)
  then show ?case
  proof cases
    case none
    let ?d' = "assignValue d k (Obj [(k2, ?chain)])"
    have run: "baseMerge h d [(k, entryOf (k2 # ks) (Obs a))] = (h, ?d')"
      using none baseMerge_clone [of "[(k2, ?chain)]" "[]" h] by simp
    have new: "shaped h (Obj [(k2, ?chain)]) {a}"
      using shaped_entryOf [OF leaf, of "k2 # ks"] by simp
    have disj: "{a} \<inter> F2 = {}" using aF by simp
    have fr0: "\<forall>c\<in>F2. props (h ! c) = props (h ! c)" by simp
    note A = assign_subtree [OF rest dd order_refl fr0 new disj]
    note 1 = A(1)
    have 2: "baseGet h (Obj ?d') (k # k2 # ks) = Some (Obs a)"
      using baseGet_entryOf [of h "k2 # ks" "Obs a"] by simp
    have 3: "baseGet h (Obj ?d') q = baseGet h (Obj d) q"
      if "\<not> prefix (k # k2 # ks) q" "\<not> prefix q (k # k2 # ks)" for q
    proof -
      from that obtain k' qs where q: "q = k' # qs" by (cases q) auto
      show ?thesis
      proof (cases "k' = k")
        case False
        show ?thesis unfolding q using False by (rule A(2))
      next
        case True
        with that q have "\<not> prefix qs (k2 # ks)" "\<not> prefix (k2 # ks) qs" by auto
        from baseGet_entryOf_off [OF this, of h "Obs a"] none True q show ?thesis by simp
      qed
    qed
    show ?thesis
      using run 1 2 3 F
      by (intro exI [of _ h] exI [of _ ?d'] exI [of _ "{a} \<union> F2"]) auto
  next
    case obj
    from old [OF obj] have dp: "shapedProps h dp F1" by (auto elim: shaped_ObjE)
    from Cons.IH [OF dp aF(1) Cons.prems(3,4), of k2] obtain h1 nv G where
      run1: "baseMerge h dp [(k2, ?chain)] = (h1, nv)"
      and sh1: "shapedProps h1 nv G" and G: "G \<subseteq> insert a F1" and len1: "length h1 = length h"
      and fr1: "\<forall>c. c \<notin> F1 \<longrightarrow> h1 ! c = h ! c"
      and em1: "\<forall>c. emits (h1 ! c) = emits (h ! c)"
      and at1: "baseGet h1 (Obj nv) (k2 # ks) = Some (Obs a)"
      and off1: "\<And>q. \<not> prefix (k2 # ks) q \<Longrightarrow> \<not> prefix q (k2 # ks) \<Longrightarrow>
                  baseGet h1 (Obj nv) q = baseGet h (Obj dp) q"
      by blast
    let ?d' = "assignValue d k (Obj nv)"
    have run: "baseMerge h d [(k, entryOf (k2 # ks) (Obs a))] = (h1, ?d')"
      using obj run1 by simp
    have frame: "\<forall>c\<in>F2. props (h1 ! c) = props (h ! c)" using fr1 F(2) by auto
    have disj: "G \<inter> F2 = {}" using G aF F(2) by auto
    note A = assign_subtree [OF rest dd eq_refl [OF len1 [symmetric]] frame shaped_Obj [OF sh1] disj]
    have 3: "baseGet h1 (Obj ?d') q = baseGet h (Obj d) q"
      if "\<not> prefix (k # k2 # ks) q" "\<not> prefix q (k # k2 # ks)" for q
    proof -
      from that obtain k' qs where q: "q = k' # qs" by (cases q) auto
      show ?thesis
      proof (cases "k' = k")
        case False
        show ?thesis unfolding q using False by (rule A(2))
      next
        case True
        with that q have "\<not> prefix (k2 # ks) qs" "\<not> prefix qs (k2 # ks)" by auto
        from off1 [OF this] obj True q show ?thesis by simp
      qed
    qed
    show ?thesis
      using run A(1) G F len1 fr1 em1 at1 3
      by (intro exI [of _ h1] exI [of _ ?d'] exI [of _ "G \<union> F2"]) auto
  next
    case obs
    from old [OF obs] obtain G0 where
      b: "F1 = insert b G0" "b < length h" "shapedProps h (props (h ! b)) G0" "b \<notin> G0"
      by (auto elim: shaped_ObsE)
    have aG0: "a \<notin> G0" "a \<noteq> b" using aF(1) b(1) by auto
    from Cons.IH [OF b(3) aG0(1) Cons.prems(3,4), of k2] obtain h1 nv G where
      run1: "baseMerge h (props (h ! b)) [(k2, ?chain)] = (h1, nv)"
      and sh1: "shapedProps h1 nv G" and G: "G \<subseteq> insert a G0" and len1: "length h1 = length h"
      and fr1: "\<forall>c. c \<notin> G0 \<longrightarrow> h1 ! c = h ! c"
      and em1: "\<forall>c. emits (h1 ! c) = emits (h ! c)"
      and at1: "baseGet h1 (Obj nv) (k2 # ks) = Some (Obs a)"
      and off1: "\<And>q. \<not> prefix (k2 # ks) q \<Longrightarrow> \<not> prefix q (k2 # ks) \<Longrightarrow>
                  baseGet h1 (Obj nv) q = baseGet h (Obj (props (h ! b))) q"
      by blast
    let ?h' = "h1[b := (h1 ! b)\<lparr>props := nv\<rparr>]"
    let ?d' = "assignValue d k (Obs b)"
    have run: "baseMerge h d [(k, entryOf (k2 # ks) (Obs a))] = (?h', ?d')"
      using obs run1 b(2) by simp
    have len: "length ?h' = length h" using len1 by simp
    have bG: "b \<notin> G" using G b(4) aG0(2) by auto
    have pb: "props (?h' ! b) = nv" using b(2) len1 by simp
    have upd: "\<forall>c\<in>G. props (?h' ! c) = props (h1 ! c)"
    proof
      fix c assume "c \<in> G"
      with bG have "c \<noteq> b" by auto
      then show "props (?h' ! c) = props (h1 ! c)" by simp
    qed
    have sh': "shapedProps ?h' nv G"
      using sh1 _ upd by (rule shaped_frame(2)) simp
    have new: "shaped ?h' (Obs b) (insert b G)"
      using shaped_Obs [of b ?h' G] sh' bG b(2) len1 pb by simp
    have frame: "\<forall>c\<in>F2. props (?h' ! c) = props (h ! c)"
    proof
      fix c assume "c \<in> F2"
      with F(2) b(1) have "c \<noteq> b" "c \<notin> G0" by auto
      with fr1 show "props (?h' ! c) = props (h ! c)" by simp
    qed
    have disj: "insert b G \<inter> F2 = {}" using G aF F(2) b(1) by auto
    note A = assign_subtree [OF rest dd eq_refl [OF len [symmetric]] frame new disj]
    have fr: "?h' ! c = h ! c" if "c \<notin> F" for c
    proof -
      from that F(1) b(1) have "c \<noteq> b" "c \<notin> G0" by auto
      with fr1 show ?thesis by simp
    qed
    have em: "emits (?h' ! c) = emits (h ! c)" for c
      using em1 b(2) len1 by (cases "c = b") (auto simp: nth_list_update)
    have inner: "baseGet ?h' (Obj nv) q = baseGet h1 (Obj nv) q" for q
      using _ shaped_Obj [OF sh1] upd by (rule baseGet_frame) simp
    have 2: "baseGet ?h' (Obj ?d') (k # k2 # ks) = Some (Obs a)"
      using at1 inner [of "k2 # ks"] pb b(2) len1 by simp
    have 3: "baseGet ?h' (Obj ?d') q = baseGet h (Obj d) q"
      if "\<not> prefix (k # k2 # ks) q" "\<not> prefix q (k # k2 # ks)" for q
    proof -
      from that obtain k' qs where q: "q = k' # qs" by (cases q) auto
      show ?thesis
      proof (cases "k' = k")
        case False
        show ?thesis unfolding q using False by (rule A(2))
      next
        case True
        with that q have off: "\<not> prefix (k2 # ks) qs" "\<not> prefix qs (k2 # ks)" by auto
        then obtain k3 qs3 where qs: "qs = k3 # qs3" by (cases qs) auto
        have "baseGet ?h' (Obj ?d') q = baseGet ?h' (Obj nv) qs"
          using True q qs pb b(2) len1 by simp
        also have "\<dots> = baseGet h (Obj (props (h ! b))) qs"
          using inner [of qs] off1 [OF off] by simp
        also have "\<dots> = baseGet h (Obj d) q"
          using True q qs obs b(2) by simp
        finally show ?thesis .
      qed
    qed
    show ?thesis
      using run A(1) G F b(1) len fr em 2 3
      by (intro exI [of _ ?h'] exI [of _ ?d'] exI [of _ "insert b G \<union> F2"]) auto
  qed
qed

text \<open>The two shapes of a registration: at the root (an empty path) and below it.\<close>

lemma addStream_cases:
  assumes "wellShaped s"
  obtains (root) "path = []"
      "addStream f path s = s\<lparr>observableStore := observableStore s,
                               heap := heap s @ [\<lparr>emits = f, props = []\<rparr>]\<rparr>"
  | (inner) k ks h' d' F' where "path = k # ks"
      "addStream f path s = s\<lparr>observableStore := d', heap := h'\<rparr>"
      "shapedProps h' d' F'" "length h' = Suc (length (heap s))"
      "\<forall>c. c < length (heap s) \<longrightarrow> emits (h' ! c) = emits (heap s ! c)"
      "h' ! length (heap s) = \<lparr>emits = f, props = []\<rparr>"
      "baseGet h' (Obj d') path = Some (Obs (length (heap s)))"
      "\<forall>q. \<not> prefix path q \<and> \<not> prefix q path \<longrightarrow>
           baseGet h' (Obj d') q = baseGet (heap s) (Obj (observableStore s)) q"
proof -
  define h0 where "h0 = heap s @ [\<lparr>emits = f, props = []\<rparr>]"
  define a where "a = length (heap s)"
  from assms obtain F where F: "shapedProps (heap s) (observableStore s) F"
    by (auto simp: wellShaped_def)
  have bound: "\<forall>b\<in>F. b < a" using shaped_bound(2) [OF F] by (simp add: a_def)
  have sh0: "shapedProps h0 (observableStore s) F"
    using bound by (intro shaped_frame(2) [OF F]) (auto simp: h0_def a_def nth_append)
  have fresh: "a \<notin> F" "a < length h0" "props (h0 ! a) = []"
    using bound by (auto simp: h0_def a_def)
  have clone: "baseMerge h0 [] (observableStore s) = (h0, [] @ observableStore s)"
    using shaped_distinctKeys(2) [OF F] by (intro baseMerge_clone) auto
  show ?thesis
  proof (cases path)
    case Nil
    have "addStream f path s = s\<lparr>observableStore := observableStore s, heap := h0\<rparr>"
      using clone fresh
      by (simp add: addStream_def newObservable_def mergeEntry_def merge_def Nil
            h0_def [symmetric] a_def [symmetric])
    with Nil show ?thesis by (intro root) (simp_all add: h0_def)
  next
    case (Cons k ks)
    from baseMerge_entry_shaped [OF sh0 fresh, of k ks] obtain h' d' F' where
      m: "baseMerge h0 (observableStore s) [(k, entryOf ks (Obs a))] = (h', d')"
      and sh: "shapedProps h' d' F'" and len: "length h' = length h0"
      and em: "\<forall>c. emits (h' ! c) = emits (h0 ! c)"
      and fr: "\<forall>c. c \<notin> F \<longrightarrow> h' ! c = h0 ! c"
      and at: "baseGet h' (Obj d') (k # ks) = Some (Obs a)"
      and off: "\<forall>q. \<not> prefix (k # ks) q \<and> \<not> prefix q (k # ks) \<longrightarrow>
                  baseGet h' (Obj d') q = baseGet h0 (Obj (observableStore s)) q"
      by blast
    have eq: "addStream f path s = s\<lparr>observableStore := d', heap := h'\<rparr>"
      using clone m
      by (simp add: addStream_def newObservable_def mergeEntry_def merge_def Cons
            h0_def [symmetric] a_def [symmetric] del: baseMerge.simps)
    have off': "\<forall>q. \<not> prefix path q \<and> \<not> prefix q path \<longrightarrow>
           baseGet h' (Obj d') q = baseGet (heap s) (Obj (observableStore s)) q"
      using off by (simp add: Cons h0_def baseGet_append_cell del: baseGet.simps)
    have cell: "h' ! length (heap s) = \<lparr>emits = f, props = []\<rparr>"
      using fr fresh(1) by (simp add: h0_def a_def)
    show ?thesis
      using Cons eq sh len em at off' cell
      by (intro inner [where k = k and ks = ks and d' = d' and h' = h' and F' = F']) (simp_all add: h0_def a_def nth_append del: baseGet.simps)
  qed
qed

lemma addStream_shaped:
  assumes ws: "wellShaped s"
  shows "wellShaped (addStream f path s)"
    and "length (heap (addStream f path s)) = Suc (length (heap s))"
    and "\<And>c. c < length (heap s) \<Longrightarrow> emits (heap (addStream f path s) ! c) = emits (heap s ! c)"
    and "heap (addStream f path s) ! length (heap s) = \<lparr>emits = f, props = []\<rparr>"
    and "path \<noteq> [] \<Longrightarrow>
           get (heap (addStream f path s)) (observableStore (addStream f path s)) path
             = Some (Obs (length (heap s)))"
    and "\<And>q. \<not> prefix path q \<Longrightarrow> \<not> prefix q path \<Longrightarrow>
           get (heap (addStream f path s)) (observableStore (addStream f path s)) q
             = get (heap s) (observableStore s) q"
proof -
  from ws show "wellShaped (addStream f path s)"
  proof (cases rule: addStream_cases [where path = path and f = f])
    case root
    from ws obtain F where F: "shapedProps (heap s) (observableStore s) F"
      by (auto simp: wellShaped_def)
    have "shapedProps (heap s @ [\<lparr>emits = f, props = []\<rparr>]) (observableStore s) F"
      using shaped_bound(2) [OF F] by (intro shaped_frame(2) [OF F]) (auto simp: nth_append)
    with root show ?thesis by (auto simp: wellShaped_def)
  next
    case (inner k ks h' d' F')
    then show ?thesis by (auto simp: wellShaped_def)
  qed
  from ws show "length (heap (addStream f path s)) = Suc (length (heap s))"
    by (cases rule: addStream_cases [where path = path and f = f]) simp_all
  show "emits (heap (addStream f path s) ! c) = emits (heap s ! c)" if "c < length (heap s)" for c
    using ws that by (cases rule: addStream_cases [where path = path and f = f]) (simp_all add: nth_append)
  from ws show "heap (addStream f path s) ! length (heap s) = \<lparr>emits = f, props = []\<rparr>"
    by (cases rule: addStream_cases [where path = path and f = f]) simp_all
  show "get (heap (addStream f path s)) (observableStore (addStream f path s)) path
          = Some (Obs (length (heap s)))" if "path \<noteq> []"
    using ws that
    by (cases rule: addStream_cases [where path = path and f = f])
       (simp_all add: get_def del: baseGet.simps)
  show "get (heap (addStream f path s)) (observableStore (addStream f path s)) q
          = get (heap s) (observableStore s) q"
    if "\<not> prefix path q" "\<not> prefix q path" for q
    using ws that
    by (cases rule: addStream_cases [where path = path and f = f])
       (simp_all add: get_def del: baseGet.simps)
qed

lemma registered_addStream:
  assumes "wellShaped s" and "path \<noteq> []"
  shows "registered (addStream f path s) path f"
  unfolding registered_def
  using addStream_shaped(2,4) [OF assms(1), of f path] addStream_shaped(5) [OF assms, of f]
  by (intro exI [of _ "length (heap s)"]) simp

lemma registered_addStream_apart:
  assumes ws: "wellShaped s" and off: "\<not> prefix path q" "\<not> prefix q path"
    and r: "registered s q g"
  shows "registered (addStream f path s) q g"
proof -
  from r obtain a where a: "get (heap s) (observableStore s) q = Some (Obs a)"
    "a < length (heap s)" "emits (heap s ! a) = g"
    by (auto simp: registered_def)
  show ?thesis
    unfolding registered_def
    using a addStream_shaped(6) [OF ws off] addStream_shaped(2) [OF ws] addStream_shaped(3) [OF ws a(2)]
    by (intro exI [of _ a]) simp
qed

text \<open>Both registration methods keep the registry a tree, also when they fail.\<close>

lemma wellShaped_constructor: "wellShaped constructor"
  by (auto simp: wellShaped_def constructor_def intro: shaped_Nil)

lemma wellShaped_forEachObservableKey:
  "wellShaped s \<Longrightarrow> wellShaped (snd (forEachObservableKey prk idx items s))"
proof (induction items arbitrary: idx s)
  case Nil
  then show ?case by simp
next
  case (Cons item items)
  show ?case
  proof (cases "idx < length prk")
    case True
    with Cons.IH [OF addStream_shaped(1) [OF Cons.prems]] show ?thesis
      by (simp add: registerObservableKey_def)
  next
    case False
    with Cons.prems show ?thesis by (simp add: registerObservableKey_def)
  qed
qed

lemma wellShaped_reduceStep:
  "wellShaped s \<Longrightarrow> wellShaped (snd (reduceStep addresses e s))"
  using wellShaped_forEachObservableKey [of s]
  by (auto simp: reduceStep_def split: sum.splits prod.splits dest: sndI)

lemma wellShaped_reduceSchemas:
  "wellShaped s \<Longrightarrow> wellShaped (snd (reduceSchemas addresses es acc s))"
proof (induction es arbitrary: acc s)
  case Nil
  then show ?case by simp
next
  case (Cons e es)
  from wellShaped_reduceStep [OF Cons.prems, of addresses e]
  show ?case by (auto split: prod.splits sum.splits intro: Cons.IH)
qed

lemma wellShaped_registerLogicalSchema:
  "wellShaped s \<Longrightarrow> wellShaped (snd (registerLogicalSchema addresses schemas s))"
  using wellShaped_reduceSchemas [of s "withAliases addresses" schemas "[]"]
  by (auto simp: registerLogicalSchema_def wellShaped_def split: option.splits prod.splits sum.splits)

lemma wellShaped_registerDerivedSchema:
  "wellShaped s \<Longrightarrow> wellShaped (registerDerivedSchema schemas s)"
  unfolding registerDerivedSchema_def
proof (induction schemas arbitrary: s)
  case Nil
  then show ?case by simp
next
  case (Cons e es)
  have "wellShaped (registerDerived e s)"
    using Cons.prems by (simp add: registerDerived_def addStream_shaped(1) split: option.splits)
  then show ?case by (simp add: Cons.IH)
qed

section \<open>Registering logical schemas\<close>

lemma sameService_refl [simp]: "sameService s s"
  by (simp add: sameService_def)

lemma sameService_trans: "sameService s s1 \<Longrightarrow> sameService s1 s2 \<Longrightarrow> sameService s s2"
  by (simp add: sameService_def)

lemma sameService_addStream: "sameService s (addStream f path s)"
  by (simp add: sameService_def addStream_def newObservable_def mergeEntry_def split: prod.splits)

lemma forEachObservableKey_ok:
  "idx + length items \<le> length prk \<Longrightarrow>
     \<exists>s'. forEachObservableKey prk idx items s = (Inr (), s') \<and> sameService s s'"
proof (induction items arbitrary: idx s)
  case Nil
  show ?case by simp
next
  case (Cons item items)
  let ?s1 = "addStream (filteredObservable (fst (prk ! idx))) item s"
  from Cons.prems have "Suc idx + length items \<le> length prk" by simp
  from Cons.IH [OF this, of ?s1] obtain s' where
    "forEachObservableKey prk (Suc idx) items ?s1 = (Inr (), s')" "sameService ?s1 s'" by blast
  with Cons.prems sameService_addStream [of s] show ?case
    by (auto simp: registerObservableKey_def intro: sameService_trans)
qed

lemma sameService_forEachObservableKey:
  "sameService s (snd (forEachObservableKey prk idx items s))"
proof (induction items arbitrary: idx s)
  case Nil
  show ?case by simp
next
  case (Cons item items)
  show ?case
  proof (cases "idx < length prk")
    case True
    from sameService_trans [OF sameService_addStream Cons.IH] True show ?thesis
      by (simp add: registerObservableKey_def)
  next
    case False
    then show ?thesis by (simp add: registerObservableKey_def)
  qed
qed

lemma sameService_reduceStep: "sameService s (snd (reduceStep addresses e s))"
  using sameService_forEachObservableKey [of s]
  by (auto simp: reduceStep_def split: sum.splits prod.splits dest: sndI)

lemma sameService_reduceSchemas: "sameService s (snd (reduceSchemas addresses es acc s))"
proof (induction es arbitrary: acc s)
  case Nil
  show ?case by simp
next
  case (Cons e es)
  obtain r s1 where step: "reduceStep addresses e s = (r, s1)"
    by (cases "reduceStep addresses e s")
  with sameService_reduceStep [of s addresses e] have s1: "sameService s s1" by simp
  show ?case
  proof (cases r)
    case (Inl err)
    with step s1 show ?thesis by simp
  next
    case (Inr d)
    from sameService_trans [OF s1 Cons.IH [of s1 "acc @ [d]"]] step Inr show ?thesis by simp
  qed
qed

lemma callKey_eq: "destructureContractCall (contractCall e) = Inr sig \<Longrightarrow>
    callKeyStructure e (callFnName sig) = specCallKey e"
  by (simp add: callKeyStructure_def specCallKey_def parsedFnName_def callArgsIdentifiers_def
      split: option.splits)

lemma reduceStep_ok:
  assumes "validEntry e"
  shows "\<exists>s'. reduceStep addresses e s = (Inr (specDescriptor addresses e), s')
           \<and> sameService s s'
           \<and> forEachObservableKey (returns (specDescriptor addresses e)) 0 (observableKeys e) s = (Inr (), s')"
proof -
  from assms obtain sig where sig: "destructureContractCall (contractCall e) = Inr sig"
    and ar: "length (callTypes sig) = length (callArgs e)"
      "length (returnTypes sig) = length (returnKeys e)"
      "length (observableKeys e) \<le> length (returnKeys e)"
    by (auto simp: validEntry_def split: sum.splits)
  let ?prk = "processedReturnKeys e (callFnName sig)"
  have prk: "?prk = returns (specDescriptor addresses e)"
    by (simp add: processedReturnKeys_def specDescriptor_def callKey_eq [OF sig])
  have "0 + length (observableKeys e) \<le> length ?prk"
    using ar by (simp add: processedReturnKeys_def)
  from forEachObservableKey_ok [OF this, of s] obtain s' where
    s': "forEachObservableKey ?prk 0 (observableKeys e) s = (Inr (), s')" "sameService s s'" by blast
  show ?thesis
    using sig ar s' prk
    by (intro exI [of _ s'])
       (simp add: reduceStep_def specDescriptor_def processedCallArgs_def)
qed


lemma reduceSchemas_ok:
  "\<forall>e\<in>set es. validEntry e \<Longrightarrow>
     \<exists>s'. reduceSchemas addresses es acc s = (Inr (acc @ map (specDescriptor addresses) es), s')
          \<and> sameService s s'"
proof (induction es arbitrary: acc s)
  case Nil
  show ?case by simp
next
  case (Cons e es)
  from Cons.prems have "validEntry e" by simp
  from reduceStep_ok [OF this, of addresses s] obtain s1 where
    s1: "reduceStep addresses e s = (Inr (specDescriptor addresses e), s1)" "sameService s s1"
    by blast
  from Cons.prems have "\<forall>e\<in>set es. validEntry e" by simp
  from Cons.IH [OF this, of "acc @ [specDescriptor addresses e]" s1] obtain s' where
    "reduceSchemas addresses es (acc @ [specDescriptor addresses e]) s1
       = (Inr ((acc @ [specDescriptor addresses e]) @ map (specDescriptor addresses) es), s')"
    "sameService s1 s'" by blast
  with s1 show ?case by (auto intro: sameService_trans)
qed

lemma reduceStep_arity:
  assumes "destructureContractCall (contractCall bad) = Inr sig"
    and "length (callTypes sig) \<noteq> length (callArgs bad)
         \<or> length (returnTypes sig) \<noteq> length (returnKeys bad)"
  shows "reduceStep addresses bad s = (Inl ArityMismatch, s)"
  using assms by (auto simp: reduceStep_def)

lemma reduceSchemas_arity:
  assumes "\<forall>e\<in>set pre. validEntry e"
    and "destructureContractCall (contractCall bad) = Inr sig"
    and "length (callTypes sig) \<noteq> length (callArgs bad)
         \<or> length (returnTypes sig) \<noteq> length (returnKeys bad)"
  shows "reduceSchemas addresses (pre @ bad # post) acc s
           = (Inl ArityMismatch, snd (reduceSchemas addresses pre acc s))"
  using assms(1)
proof (induction pre arbitrary: acc s)
  case Nil
  show ?case by (simp add: reduceStep_arity [OF assms(2,3)])
next
  case (Cons e pre)
  from Cons.prems have "validEntry e" by simp
  from reduceStep_ok [OF this, of addresses s] obtain s1 where
    s1: "reduceStep addresses e s = (Inr (specDescriptor addresses e), s1)" by blast
  from Cons.prems have "\<forall>e\<in>set pre. validEntry e" by simp
  from Cons.IH [OF this] s1 show ?case by simp
qed

lemma withAliases_specResolve: "withAliases addresses = specResolve addresses"
  by (auto simp: withAliases_def specResolve_def fun_eq_iff)

lemma forEachObservableKey_overrun:
  "idx \<le> length prk \<Longrightarrow> length prk < idx + length items \<Longrightarrow>
     fst (forEachObservableKey prk idx items s) = Inl TypeError"
proof (induction items arbitrary: idx s)
  case Nil
  then show ?case by simp
next
  case (Cons item items)
  show ?case
  proof (cases "idx < length prk")
    case True
    with Cons.prems have "Suc idx \<le> length prk" "length prk < Suc idx + length items" by simp_all
    from Cons.IH [OF this] True show ?thesis by (simp add: registerObservableKey_def)
  next
    case False
    then show ?thesis by (simp add: registerObservableKey_def)
  qed
qed

lemma reduceStep_invalid:
  assumes "\<not> validEntry e"
  shows "\<exists>err. fst (reduceStep addresses e s) = Inl err"
proof (cases "destructureContractCall (contractCall e)")
  case (Inl err)
  then show ?thesis by (simp add: reduceStep_def)
next
  case (Inr sig)
  show ?thesis
  proof (cases "length (callTypes sig) = length (callArgs e)
      \<and> length (returnTypes sig) = length (returnKeys e)")
    case False
    with Inr show ?thesis by (auto simp: reduceStep_def)
  next
    case True
    with Inr assms have "length (processedReturnKeys e (callFnName sig))
        < 0 + length (observableKeys e)"
      by (simp add: validEntry_def processedReturnKeys_def)
    from forEachObservableKey_overrun [OF le0 this, of s] Inr True show ?thesis
      by (auto simp: reduceStep_def split: prod.splits sum.splits)
  qed
qed

lemma reduceSchemas_invalid:
  "\<exists>e\<in>set es. \<not> validEntry e \<Longrightarrow> \<exists>err. fst (reduceSchemas addresses es acc s) = Inl err"
proof (induction es arbitrary: acc s)
  case Nil
  then show ?case by simp
next
  case (Cons e es)
  show ?case
  proof (cases "validEntry e")
    case True
    from reduceStep_ok [OF this, of addresses s] obtain s1 where
      s1: "reduceStep addresses e s = (Inr (specDescriptor addresses e), s1)" by blast
    from Cons.prems True have "\<exists>e\<in>set es. \<not> validEntry e" by simp
    from Cons.IH [OF this] s1 show ?thesis by simp
  next
    case False
    from reduceStep_invalid [OF this, of addresses s] show ?thesis
      by (auto split: prod.splits sum.splits)
  qed
qed

text \<open>
  C5, as amended. A call on a service with a watcher. When every entry of the call is
  valid, the call succeeds and appends to the watcher's call list, in order, one
  descriptor per entry: the target is the address that the table, with the two aliases
  resolved, gives for the contract name, the call is the signature text followed by the
  arguments, each passed through its own function when it has one, and the returns pair
  each Call Key, a dot and the return key with that key's transform, if any. When some
  entry is not valid, the call fails and the call list stays as it was: no descriptor is
  appended, not even for the valid entries.
\<close>

theorem registerLogicalSchema_descriptors:
  assumes "watcher s = Some w"
  shows "((\<forall>e\<in>set schemas. validEntry e) \<longrightarrow>
            (\<exists>s'. registerLogicalSchema addresses schemas s = (Inr (observableStore s'), s')
               \<and> watcher s' = Some (w\<lparr>calls := calls w
                     @ map (specDescriptor (specResolve addresses)) schemas\<rparr>)))
       \<and> ((\<exists>e\<in>set schemas. \<not> validEntry e) \<longrightarrow>
            (\<exists>err. fst (registerLogicalSchema addresses schemas s) = Inl err)
            \<and> watcher (snd (registerLogicalSchema addresses schemas s)) = Some w)"
proof (intro conjI impI)
  assume "\<forall>e\<in>set schemas. validEntry e"
  from reduceSchemas_ok [OF this, of "withAliases addresses" "[]" s] obtain s1 where
    "reduceSchemas (withAliases addresses) schemas [] s
       = (Inr ([] @ map (specDescriptor (withAliases addresses)) schemas), s1)" by blast
  with assms show "\<exists>s'. registerLogicalSchema addresses schemas s = (Inr (observableStore s'), s')
               \<and> watcher s' = Some (w\<lparr>calls := calls w
                     @ map (specDescriptor (specResolve addresses)) schemas\<rparr>)"
    by (simp add: registerLogicalSchema_def withAliases_specResolve)
next
  assume bad: "\<exists>e\<in>set schemas. \<not> validEntry e"
  obtain r s1 where run: "reduceSchemas (withAliases addresses) schemas [] s = (r, s1)"
    by (cases "reduceSchemas (withAliases addresses) schemas [] s")
  from reduceSchemas_invalid [OF bad, of "withAliases addresses" "[]" s] run
  obtain err where r: "r = Inl err" by auto
  from sameService_reduceSchemas [of s "withAliases addresses" schemas "[]"] run
  have same: "watcher s1 = watcher s" by (simp add: sameService_def)
  from run r assms show "\<exists>err. fst (registerLogicalSchema addresses schemas s) = Inl err"
    by (simp add: registerLogicalSchema_def)
  from run r assms same show "watcher (snd (registerLogicalSchema addresses schemas s)) = Some w"
    by (simp add: registerLogicalSchema_def)
qed

theorem registerLogicalSchema_descriptors_witness:
  "watcher (snd (registerLogicalSchema exampleAddresses [exampleSchema, aliasSchema, wethSchema]
       serviceWithWatcher))
     = Some \<lparr>calls =
         [\<lparr>target = Some ''0x01'', call = [''bal(addr)(uint)'', ''0xabc''],
           returns = [(''X.bal.0xabc.balance'', None)]\<rparr>,
          \<lparr>target = Some ''0xda1'',
           call = [''allowance(address,address)(uint256)'', ''0xabc'', ''0xdef00''],
           returns = [(''MDAI.allowance.me.proxy.allowance'', Some ())]\<rparr>,
          \<lparr>target = Some ''0xeee'', call = [''balanceOf(address)(uint256)'', ''0xabc''],
           returns = [(''MWETH.balanceOf.0xabc.weth'', None)]\<rparr>],
        subscribers = 0\<rparr>
   \<and> watcher (snd (registerLogicalSchema exampleAddresses [exampleSchema, mismatchSchema]
       serviceWithWatcher)) = Some \<lparr>calls = [], subscribers = 0\<rparr>"
proof -
  have w: "watcher serviceWithWatcher = Some \<lparr>calls = [], subscribers = 0\<rparr>"
    by (simp add: example_defs)
  have v: "\<forall>e\<in>set [exampleSchema, aliasSchema, wethSchema]. validEntry e"
    by (simp add: validEntry_def example_defs parse_defs)
  have n: "\<exists>e\<in>set [exampleSchema, mismatchSchema]. \<not> validEntry e"
    by (simp add: validEntry_def example_defs parse_defs)
  note T = registerLogicalSchema_descriptors [OF w, of _ exampleAddresses]
  from T [of "[exampleSchema, aliasSchema, wethSchema]"] v
  have "watcher (snd (registerLogicalSchema exampleAddresses [exampleSchema, aliasSchema, wethSchema]
       serviceWithWatcher))
     = Some (\<lparr>calls = [], subscribers = 0\<rparr>\<lparr>calls := calls \<lparr>calls = [], subscribers = 0\<rparr>
          @ map (specDescriptor (specResolve exampleAddresses))
              [exampleSchema, aliasSchema, wethSchema]\<rparr>)"
    by auto
  moreover from T [of "[exampleSchema, mismatchSchema]"] n
  have "watcher (snd (registerLogicalSchema exampleAddresses [exampleSchema, mismatchSchema]
       serviceWithWatcher)) = Some \<lparr>calls = [], subscribers = 0\<rparr>"
    by blast
  ultimately show ?thesis
    by (simp add: specDescriptor_def specCallKey_def parsedFnName_def specResolve_def
        example_defs parse_defs)
qed

text \<open>
  C5 as stated fails for a valid entry in a call that fails: the example entry is valid,
  the entry after it has a signature without return type, and the call list is still
  empty after the call.
\<close>

theorem valid_entry_without_descriptor:
  "validEntry exampleSchema
   \<and> fst (registerLogicalSchema exampleAddresses [exampleSchema, noReturnSchema] serviceWithWatcher)
       = Inl MalformedCallSignature
   \<and> watcher (snd (registerLogicalSchema exampleAddresses [exampleSchema, noReturnSchema]
         serviceWithWatcher)) = Some \<lparr>calls = [], subscribers = 0\<rparr>"
  by (simp add: validEntry_def example_defs parse_defs register_defs)

text \<open>
  C3, as amended. When the entries before it are valid and an entry parses but disagrees
  with its signature in the number of call arguments or of return keys, the call fails
  with \<open>ArityMismatch\<close>. The failing entry and those after it change nothing: the state
  is the one reached by registering the earlier entries alone, except that the watcher is
  the one before the call, so no descriptor has been submitted, not even for the earlier
  entries. What remains of the earlier entries is their registry entries.
\<close>

theorem registerLogicalSchema_arity_mismatch:
  assumes "watcher s = Some w"
    and "\<forall>e\<in>set pre. validEntry e"
    and "destructureContractCall (contractCall bad) = Inr sig"
    and "length (callTypes sig) \<noteq> length (callArgs bad)
         \<or> length (returnTypes sig) \<noteq> length (returnKeys bad)"
  shows "fst (registerLogicalSchema addresses (pre @ bad # post) s) = Inl ArityMismatch
       \<and> snd (registerLogicalSchema addresses (pre @ bad # post) s)
           = (snd (registerLogicalSchema addresses pre s))\<lparr>watcher := watcher s\<rparr>"
proof -
  from reduceSchemas_ok [OF assms(2), of "withAliases addresses" "[]" s] obtain s1 where
    s1: "reduceSchemas (withAliases addresses) pre [] s
       = (Inr ([] @ map (specDescriptor (withAliases addresses)) pre), s1)"
      "sameService s s1" by blast
  have "reduceSchemas (withAliases addresses) (pre @ bad # post) [] s = (Inl ArityMismatch, s1)"
    using reduceSchemas_arity [OF assms(2-4), of "withAliases addresses" post "[]" s] s1 by simp
  with s1 assms(1) show ?thesis
    by (simp add: registerLogicalSchema_def sameService_def)
qed

theorem registerLogicalSchema_arity_mismatch_witness:
  "fst (registerLogicalSchema exampleAddresses [exampleSchema, mismatchSchema, aliasSchema]
          serviceWithWatcher) = Inl ArityMismatch
   \<and> snd (registerLogicalSchema exampleAddresses [exampleSchema, mismatchSchema, aliasSchema]
          serviceWithWatcher)
     = (snd (registerLogicalSchema exampleAddresses [exampleSchema] serviceWithWatcher))
         \<lparr>watcher := watcher serviceWithWatcher\<rparr>"
proof -
  have w: "watcher serviceWithWatcher = Some \<lparr>calls = [], subscribers = 0\<rparr>"
    by (simp add: example_defs)
  have v: "\<forall>e\<in>set [exampleSchema]. validEntry e"
    by (simp add: validEntry_def example_defs parse_defs)
  have p: "destructureContractCall (contractCall mismatchSchema)
             = Inr \<lparr>callFnName = [''total''], callTypes = [], returnTypes = [''uint'']\<rparr>"
    by (simp add: example_defs parse_defs)
  have m: "length (callTypes \<lparr>callFnName = [''total''], callTypes = [], returnTypes = [''uint'']\<rparr>)
             \<noteq> length (callArgs mismatchSchema)
           \<or> length (returnTypes \<lparr>callFnName = [''total''], callTypes = [], returnTypes = [''uint'']\<rparr>)
             \<noteq> length (returnKeys mismatchSchema)"
    by (simp add: example_defs)
  from registerLogicalSchema_arity_mismatch [OF w v p m, of exampleAddresses "[aliasSchema]"]
  show ?thesis by simp
qed

text \<open>
  C3 as stated fails where it lets descriptors of earlier entries be submitted: the valid
  first entry has its stream in the registry, but the call list is still empty after the
  call has failed on the second entry.
\<close>

theorem registerLogicalSchema_submission_all_or_nothing:
  "fst (registerLogicalSchema exampleAddresses [exampleSchema, mismatchSchema] serviceWithWatcher)
     = Inl ArityMismatch
   \<and> watcher (snd (registerLogicalSchema exampleAddresses [exampleSchema, mismatchSchema]
        serviceWithWatcher)) = Some \<lparr>calls = [], subscribers = 0\<rparr>
   \<and> observableStore (snd (registerLogicalSchema exampleAddresses [exampleSchema, mismatchSchema]
        serviceWithWatcher)) = [(''x'', Obj [(''balance'', Obs 0)])]"
  by (simp add: example_defs parse_defs register_defs)

section \<open>Heaps that only grow\<close>

lemma heapExtends_refl [simp]: "heapExtends h h"
  by (simp add: heapExtends_def)

lemma heapExtends_append: "heapExtends h (h @ [\<lparr>emits = f, props = []\<rparr>])"
  by (simp add: heapExtends_def)

lemma heapExtends_trans:
  assumes "heapExtends h h1" and "heapExtends h1 h2"
  shows "heapExtends h h2"
proof -
  from assms(1) obtain cs where h1: "h1 = h @ cs" and cs: "list_all (\<lambda>c. props c = []) cs"
    unfolding heapExtends_def by (metis append_take_drop_id)
  from assms(2) obtain ds where h2: "h2 = h1 @ ds" and ds: "list_all (\<lambda>c. props c = []) ds"
    unfolding heapExtends_def by (metis append_take_drop_id)
  from h1 h2 cs ds show ?thesis by (simp add: heapExtends_def)
qed

lemma heapExtends_nth: "heapExtends h h' \<Longrightarrow> a < length h \<Longrightarrow> h' ! a = h ! a"
  unfolding heapExtends_def by (metis nth_take)

lemma propsOf_heapExtends:
  assumes "heapExtends h h'"
  shows "propsOf h' a = propsOf h a"
proof -
  from assms obtain cs where h': "h' = h @ cs" and cs: "list_all (\<lambda>c. props c = []) cs"
    unfolding heapExtends_def by (metis append_take_drop_id)
  show ?thesis
  proof (cases "a < length h")
    case True
    with h' show ?thesis by (simp add: nth_append)
  next
    case False
    with h' cs show ?thesis by (auto simp: nth_append list_all_length)
  qed
qed

lemma baseGet_heapExtends:
  assumes "heapExtends h h'"
  shows "baseGet h' n q = baseGet h n q"
proof (induction q arbitrary: n)
  case Nil
  show ?case by simp
next
  case (Cons k q)
  have "getProp h' n k = getProp h n k"
    using propsOf_heapExtends [OF assms] by (cases n) (simp_all del: propsOf.simps)
  with Cons show ?case by (simp split: option.splits)
qed

section \<open>The views registered by a logical schema\<close>

lemma forEachObservableKey_registers:
  assumes "wellShaped s" and "apartRoutes paths" and "set items \<subseteq> set paths"
    and "idx + length items \<le> length prk"
  shows "\<exists>s'. forEachObservableKey prk idx items s = (Inr (), s')
           \<and> wellShaped s'
           \<and> (\<forall>q g. q \<in> set paths \<longrightarrow> q \<notin> set items \<longrightarrow> registered s q g \<longrightarrow> registered s' q g)
           \<and> (distinct items \<longrightarrow>
                (\<forall>i<length items.
                   registered s' (items ! i) (filteredObservable (fst (prk ! (idx + i))))))"
  using assms
proof (induction items arbitrary: idx s)
  case Nil
  then show ?case by simp
next
  case (Cons item items)
  let ?f = "filteredObservable (fst (prk ! idx)) :: 'a event list \<Rightarrow> 'a list"
  let ?s1 = "addStream ?f item s"
  from Cons.prems have item: "item \<in> set paths" and items: "set items \<subseteq> set paths"
    and idx: "idx < length prk" "Suc idx + length items \<le> length prk" by auto
  from item Cons.prems(2) have ne: "item \<noteq> []" by (simp add: apartRoutes_def)
  note ws1 = addStream_shaped(1) [OF Cons.prems(1), of ?f item]
  from Cons.IH [OF ws1 Cons.prems(2) items idx(2)] obtain s' where
    run: "forEachObservableKey prk (Suc idx) items ?s1 = (Inr (), s')"
    and ws: "wellShaped s'"
    and keep: "\<And>q g. q \<in> set paths \<Longrightarrow> q \<notin> set items \<Longrightarrow> registered ?s1 q g \<Longrightarrow> registered s' q g"
    and new: "distinct items \<Longrightarrow> (\<forall>i<length items.
                   registered s' (items ! i) (filteredObservable (fst (prk ! (Suc idx + i)))))"
    by blast
  have 1: "forEachObservableKey prk idx (item # items) s = (Inr (), s')"
    using idx run by (simp add: registerObservableKey_def)
  have 3: "registered s' q g"
    if "q \<in> set paths" "q \<notin> set (item # items)" "registered s q g" for q g
  proof -
    from that(1,2) item Cons.prems(2) have "\<not> prefix item q" "\<not> prefix q item"
      by (auto simp: apartRoutes_def strict_prefix_def)
    from registered_addStream_apart [OF Cons.prems(1) this that(3), of ?f]
    have "registered ?s1 q g" .
    with that show ?thesis by (intro keep) simp_all
  qed
  have 4: "registered s' ((item # items) ! i) (filteredObservable (fst (prk ! (idx + i))))"
    if d: "distinct (item # items)" and i: "i < length (item # items)" for i
  proof (cases i)
    case 0
    from d have "item \<notin> set items" by simp
    from keep [OF item this registered_addStream [OF Cons.prems(1) ne]] 0 show ?thesis by simp
  next
    case (Suc j)
    with new d i show ?thesis by simp
  qed
  from 1 ws 3 4 show ?case by blast
qed

lemma reduceStep_registers:
  assumes ws: "wellShaped s" and ap: "apartRoutes paths"
    and sub: "set (observableKeys e) \<subseteq> set paths" and v: "validEntry e"
  shows "\<exists>s'. reduceStep addresses e s = (Inr (specDescriptor addresses e), s')
           \<and> wellShaped s'
           \<and> (\<forall>q g. q \<in> set paths \<longrightarrow> q \<notin> set (observableKeys e) \<longrightarrow>
                  registered s q g \<longrightarrow> registered s' q g)
           \<and> (distinct (observableKeys e) \<longrightarrow>
                (\<forall>i<length (observableKeys e).
                   registered s' (observableKeys e ! i)
                     (filteredObservable (specCallKey e @ ''.'' @ fst (returnKeys e ! i)))))"
proof -
  let ?prk = "returns (specDescriptor addresses e)"
  from v have len: "length (observableKeys e) \<le> length (returnKeys e)"
    by (auto simp: validEntry_def split: sum.splits)
  then have bound: "0 + length (observableKeys e) \<le> length ?prk"
    by (simp add: specDescriptor_def)
  have key: "fst (?prk ! i) = specCallKey e @ ''.'' @ fst (returnKeys e ! i)"
    if "i < length (observableKeys e)" for i
    using that len by (simp add: specDescriptor_def split: prod.splits)
  from reduceStep_ok [OF v, of addresses s] obtain s' where
    step: "reduceStep addresses e s = (Inr (specDescriptor addresses e), s')"
    and run: "forEachObservableKey ?prk 0 (observableKeys e) s = (Inr (), s')" by blast
  from forEachObservableKey_registers [OF ws ap sub bound] run
  have "wellShaped s'"
    and "\<forall>q g. q \<in> set paths \<longrightarrow> q \<notin> set (observableKeys e) \<longrightarrow> registered s q g \<longrightarrow> registered s' q g"
    and "distinct (observableKeys e) \<longrightarrow>
           (\<forall>i<length (observableKeys e).
              registered s' (observableKeys e ! i) (filteredObservable (fst (?prk ! (0 + i)))))"
    by auto
  with step key show ?thesis by (intro exI [of _ s']) simp
qed

lemma reduceSchemas_registers:
  assumes "wellShaped s" and "apartRoutes paths"
    and "set (concat (map observableKeys es)) \<subseteq> set paths"
    and "\<forall>e\<in>set es. validEntry e"
  shows "\<exists>s'. reduceSchemas addresses es acc s
                 = (Inr (acc @ map (specDescriptor addresses) es), s')
           \<and> wellShaped s'
           \<and> (\<forall>q g. q \<in> set paths \<longrightarrow> q \<notin> set (concat (map observableKeys es)) \<longrightarrow>
                  registered s q g \<longrightarrow> registered s' q g)
           \<and> (distinct (concat (map observableKeys es)) \<longrightarrow>
                (\<forall>e\<in>set es. \<forall>i<length (observableKeys e).
                   registered s' (observableKeys e ! i)
                     (filteredObservable (specCallKey e @ ''.'' @ fst (returnKeys e ! i)))))"
  using assms
proof (induction es arbitrary: acc s)
  case Nil
  then show ?case by simp
next
  case (Cons e es)
  from Cons.prems have sub: "set (observableKeys e) \<subseteq> set paths"
    "set (concat (map observableKeys es)) \<subseteq> set paths"
    and v: "validEntry e" "\<forall>e\<in>set es. validEntry e" by auto
  from reduceStep_registers [OF Cons.prems(1,2) sub(1) v(1), of addresses] obtain s1 where
    step: "reduceStep addresses e s = (Inr (specDescriptor addresses e), s1)"
    and ws1: "wellShaped s1"
    and keep1: "\<And>q g. q \<in> set paths \<Longrightarrow> q \<notin> set (observableKeys e) \<Longrightarrow>
                  registered s q g \<Longrightarrow> registered s1 q g"
    and new1: "distinct (observableKeys e) \<Longrightarrow>
                (\<forall>i<length (observableKeys e).
                   registered s1 (observableKeys e ! i)
                     (filteredObservable (specCallKey e @ ''.'' @ fst (returnKeys e ! i))))"
    by blast
  from Cons.IH [OF ws1 Cons.prems(2) sub(2) v(2), of "acc @ [specDescriptor addresses e]"]
  obtain s' where
    run: "reduceSchemas addresses es (acc @ [specDescriptor addresses e]) s1
            = (Inr ((acc @ [specDescriptor addresses e]) @ map (specDescriptor addresses) es), s')"
    and ws: "wellShaped s'"
    and keep: "\<And>q g. q \<in> set paths \<Longrightarrow> q \<notin> set (concat (map observableKeys es)) \<Longrightarrow>
                  registered s1 q g \<Longrightarrow> registered s' q g"
    and new: "distinct (concat (map observableKeys es)) \<Longrightarrow>
                (\<forall>e\<in>set es. \<forall>i<length (observableKeys e).
                   registered s' (observableKeys e ! i)
                     (filteredObservable (specCallKey e @ ''.'' @ fst (returnKeys e ! i))))"
    by blast
  have 1: "reduceSchemas addresses (e # es) acc s
             = (Inr (acc @ map (specDescriptor addresses) (e # es)), s')"
    using step run by simp
  have 4: "registered s' q g"
    if "q \<in> set paths" "q \<notin> set (concat (map observableKeys (e # es)))" "registered s q g"
    for q g
    using that by (intro keep keep1) simp_all
  have 5: "registered s' (observableKeys e' ! i)
             (filteredObservable (specCallKey e' @ ''.'' @ fst (returnKeys e' ! i)))"
    if d: "distinct (concat (map observableKeys (e # es)))"
      and e': "e' \<in> set (e # es)" and i: "i < length (observableKeys e')" for e' i
  proof (cases "e' \<in> set es")
    case True
    with new d i show ?thesis by simp
  next
    case False
    with e' have [simp]: "e' = e" by simp
    from d i have "observableKeys e ! i \<notin> set (concat (map observableKeys es))"
      by (auto dest: nth_mem)
    moreover from sub(1) i have "observableKeys e ! i \<in> set paths" by (auto dest: nth_mem)
    moreover from new1 d i have "registered s1 (observableKeys e ! i)
        (filteredObservable (specCallKey e @ ''.'' @ fst (returnKeys e ! i)))" by simp
    ultimately show ?thesis by (simp add: keep)
  qed
  from 1 ws 4 5 show ?case by blast
qed

lemma observe_registered:
  "registered s path f \<Longrightarrow> observe (s\<lparr>rootObservable := events\<rparr>) path = Some (f events)"
  by (auto simp: registered_def observe_def)




section \<open>Deep merge of two registrations\<close>

text \<open>
  C6. Two registrations, one after the other, into a registry that is a tree, at the
  non-empty paths \<open>p1\<close> and \<open>p2\<close>; each creates a stream object, at the addresses \<open>a1\<close>
  and \<open>a2\<close>, and merges a one-path entry into the registry. Afterwards the registry holds
  the second object at \<open>p2\<close>, whatever was there before, so a leaf at the same path is
  replaced wholesale and the last registration wins; that object is the new stream as
  created, without properties, so nothing of a former leaf has been merged into it; when
  neither path begins the other, the first object is still at \<open>p1\<close>; every path that
  neither extends nor begins one of the two resolves as before, so objects are merged key
  by key; the first object still emits as created, and so does every older stream.
\<close>

theorem addStream_deep_merge:
  assumes "wellShaped s" and "p1 \<noteq> []" and "p2 \<noteq> []"
  shows "(let a1 = length (heap s); a2 = Suc (length (heap s));
              s2 = addStream f2 p2 (addStream f1 p1 s)
          in get (heap s2) (observableStore s2) p2 = Some (Obs a2)
             \<and> heap s2 ! a2 = \<lparr>emits = f2, props = []\<rparr>
             \<and> (\<not> prefix p1 p2 \<and> \<not> prefix p2 p1 \<longrightarrow>
                  get (heap s2) (observableStore s2) p1 = Some (Obs a1))
             \<and> (\<forall>q. \<not> prefix p1 q \<and> \<not> prefix q p1 \<and> \<not> prefix p2 q \<and> \<not> prefix q p2 \<longrightarrow>
                   get (heap s2) (observableStore s2) q = get (heap s) (observableStore s) q)
             \<and> length (heap s2) = Suc a2
             \<and> emits (heap s2 ! a1) = f1
             \<and> (\<forall>c<a1. emits (heap s2 ! c) = emits (heap s ! c)))"
proof -
  let ?s1 = "addStream f1 p1 s"
  let ?s2 = "addStream f2 p2 ?s1"
  note one = addStream_shaped [OF assms(1), where f = f1 and path = p1]
  note two = addStream_shaped [OF one(1), where f = f2 and path = p2]
  have a: "get (heap ?s2) (observableStore ?s2) p2 = Some (Obs (Suc (length (heap s))))"
    using two(5) [OF assms(3)] by (simp add: one(2))
  have b: "heap ?s2 ! Suc (length (heap s)) = \<lparr>emits = f2, props = []\<rparr>"
    using two(4) by (simp add: one(2))
  have c: "get (heap ?s2) (observableStore ?s2) p1 = Some (Obs (length (heap s)))"
    if "\<not> prefix p1 p2" "\<not> prefix p2 p1"
    using two(6) [OF that(2,1)] one(5) [OF assms(2)] by simp
  have d: "get (heap ?s2) (observableStore ?s2) q = get (heap s) (observableStore s) q"
    if "\<not> prefix p1 q" "\<not> prefix q p1" "\<not> prefix p2 q" "\<not> prefix q p2" for q
    using two(6) [OF that(3,4)] one(6) [OF that(1,2)] by simp
  have e: "length (heap ?s2) = Suc (Suc (length (heap s)))"
    by (simp add: one(2) two(2))
  have f: "emits (heap ?s2 ! length (heap s)) = f1"
    using two(3) [of "length (heap s)"] one(4) by (simp add: one(2))
  have g: "emits (heap ?s2 ! c) = emits (heap s ! c)" if "c < length (heap s)" for c
    using two(3) [of c] one(3) [OF that] that by (simp add: one(2))
  from a b c d e f g show ?thesis by (simp add: Let_def)
qed

theorem addStream_deep_merge_witness:
  "(let s = snd (registerLogicalSchema exampleAddresses [exampleSchema, aliasSchema] serviceWithWatcher);
        s2 = addStream (filteredObservable ''b'') [''x'', ''balance'']
               (addStream (filteredObservable ''t'') [''x'', ''total''] s)
    in get (heap s) (observableStore s) [''x'', ''balance''] = Some (Obs 0)
       \<and> get (heap s2) (observableStore s2) [''x'', ''balance''] = Some (Obs 3)
       \<and> get (heap s2) (observableStore s2) [''x'', ''total''] = Some (Obs 2)
       \<and> get (heap s2) (observableStore s2) [''dai'', ''allowance''] = Some (Obs 1)
       \<and> heap s2 ! 3 = \<lparr>emits = filteredObservable ''b'', props = []\<rparr>
       \<and> emits (heap s2 ! 2) = filteredObservable ''t'')"
proof -
  let ?s = "snd (registerLogicalSchema exampleAddresses [exampleSchema, aliasSchema] serviceWithWatcher)"
  let ?s2 = "addStream (filteredObservable ''b'') [''x'', ''balance'']
               (addStream (filteredObservable ''t'') [''x'', ''total''] ?s)"
  have "wellShaped serviceWithWatcher"
    using wellShaped_constructor [where ?'a = int and ?'b = unit]
    by (simp add: wellShaped_def example_defs)
  then have ws: "wellShaped ?s" by (rule wellShaped_registerLogicalSchema)
  have store: "observableStore ?s
      = [(''x'', Obj [(''balance'', Obs 0)]), (''dai'', Obj [(''allowance'', Obs 1)])]"
    and len: "length (heap ?s) = 2"
    by (simp_all add: example_defs parse_defs register_defs)
  note T = addStream_deep_merge [OF ws, of "[''x'', ''total'']" "[''x'', ''balance'']"
      "filteredObservable ''b''" "filteredObservable ''t''", unfolded Let_def len]
  have np: "\<not> prefix [''x'', ''total''] [''x'', ''balance'']
      \<and> \<not> prefix [''x'', ''balance''] [''x'', ''total'']" by simp
  from T np
  have t: "get (heap ?s2) (observableStore ?s2) [''x'', ''balance''] = Some (Obs (Suc 2))"
    "heap ?s2 ! Suc 2 = \<lparr>emits = filteredObservable ''b'', props = []\<rparr>"
    "get (heap ?s2) (observableStore ?s2) [''x'', ''total''] = Some (Obs 2)"
    "emits (heap ?s2 ! 2) = filteredObservable ''t''"
    and rest: "\<forall>q. \<not> prefix [''x'', ''total''] q \<and> \<not> prefix q [''x'', ''total'']
                \<and> \<not> prefix [''x'', ''balance''] q \<and> \<not> prefix q [''x'', ''balance''] \<longrightarrow>
              get (heap ?s2) (observableStore ?s2) q = get (heap ?s) (observableStore ?s) q"
    by blast+
  from rest [rule_format, of "[''dai'', ''allowance'']"]
  have "get (heap ?s2) (observableStore ?s2) [''dai'', ''allowance'']
          = get (heap ?s) (observableStore ?s) [''dai'', ''allowance'']" by simp
  moreover have "get (heap ?s) (observableStore ?s) [''x'', ''balance''] = Some (Obs 0)"
    "get (heap ?s) (observableStore ?s) [''dai'', ''allowance''] = Some (Obs 1)"
    by (simp_all add: store get_def)
  ultimately show ?thesis using t by (simp add: Let_def numeral_3_eq_3)
qed

section \<open>Earlier snapshots of the registry\<close>

lemma registerObservableKey_frame:
  assumes "freeRoutes s paths" and "item \<in> set paths"
  shows "freeRoutes (snd (registerObservableKey prk item idx s)) paths
       \<and> heapExtends (heap s) (heap (snd (registerObservableKey prk item idx s)))"
  using addStream_effect(1,2) [OF assms] heapExtends_append [of "heap s"] assms(1)
  by (simp add: registerObservableKey_def)

lemma forEachObservableKey_frame:
  assumes "freeRoutes s paths" and "set items \<subseteq> set paths"
  shows "freeRoutes (snd (forEachObservableKey prk idx items s)) paths
       \<and> heapExtends (heap s) (heap (snd (forEachObservableKey prk idx items s)))"
  using assms
proof (induction items arbitrary: idx s)
  case Nil
  then show ?case by simp
next
  case (Cons item items)
  obtain r s1 where step: "registerObservableKey prk item idx s = (r, s1)"
    by (cases "registerObservableKey prk item idx s")
  from registerObservableKey_frame [of s paths item prk idx] Cons.prems step
  have s1: "freeRoutes s1 paths" "heapExtends (heap s) (heap s1)" by auto
  show ?case
  proof (cases r)
    case (Inl e)
    with step s1 show ?thesis by simp
  next
    case (Inr u)
    from Cons.IH [OF s1(1), of "Suc idx"] Cons.prems(2)
    have "freeRoutes (snd (forEachObservableKey prk (Suc idx) items s1)) paths"
      "heapExtends (heap s1) (heap (snd (forEachObservableKey prk (Suc idx) items s1)))"
      by auto
    with Inr step s1 show ?thesis by (auto intro: heapExtends_trans)
  qed
qed

lemma reduceStep_frame:
  assumes "freeRoutes s paths" and "set (observableKeys e) \<subseteq> set paths"
  shows "freeRoutes (snd (reduceStep addresses e s)) paths
       \<and> heapExtends (heap s) (heap (snd (reduceStep addresses e s)))"
proof -
  have "snd (reduceStep addresses e s) = s
      \<or> snd (reduceStep addresses e s)
          = snd (forEachObservableKey (processedReturnKeys e (parsedFnName e)) 0 (observableKeys e) s)"
    by (auto simp: reduceStep_def parsedFnName_def split: sum.splits prod.splits)
  with forEachObservableKey_frame [OF assms] assms(1) show ?thesis by auto
qed

lemma reduceSchemas_frame:
  assumes "freeRoutes s paths" and "set (concat (map observableKeys es)) \<subseteq> set paths"
  shows "freeRoutes (snd (reduceSchemas addresses es acc s)) paths
       \<and> heapExtends (heap s) (heap (snd (reduceSchemas addresses es acc s)))"
  using assms
proof (induction es arbitrary: acc s)
  case Nil
  then show ?case by simp
next
  case (Cons e es)
  obtain r s1 where step: "reduceStep addresses e s = (r, s1)"
    by (cases "reduceStep addresses e s")
  from reduceStep_frame [of s paths e addresses] Cons.prems step
  have s1: "freeRoutes s1 paths" "heapExtends (heap s) (heap s1)" by auto
  show ?case
  proof (cases r)
    case (Inl err)
    with step s1 show ?thesis by simp
  next
    case (Inr d)
    from Cons.IH [OF s1(1), of "acc @ [d]"] Cons.prems(2)
    have "freeRoutes (snd (reduceSchemas addresses es (acc @ [d]) s1)) paths"
      "heapExtends (heap s1) (heap (snd (reduceSchemas addresses es (acc @ [d]) s1)))"
      by auto
    with Inr step s1 show ?thesis by (auto intro: heapExtends_trans)
  qed
qed

lemma registerLogicalSchema_frame:
  assumes "freeRoutes s (concat (map observableKeys schemas))"
  shows "heapExtends (heap s) (heap (snd (registerLogicalSchema addresses schemas s)))"
proof (cases "watcher s")
  case None
  then show ?thesis by (simp add: registerLogicalSchema_def)
next
  case (Some w)
  obtain r s1 where run: "reduceSchemas (withAliases addresses) schemas [] s = (r, s1)"
    by (cases "reduceSchemas (withAliases addresses) schemas [] s")
  with reduceSchemas_frame [OF assms subset_refl, of "withAliases addresses" "[]"]
  have "heapExtends (heap s) (heap s1)" by simp
  with Some run show ?thesis
    by (cases r) (simp_all add: registerLogicalSchema_def)
qed

lemma registerDerived_frame:
  assumes "freeRoutes s paths" and "observableKeysD e \<in> set paths"
  shows "freeRoutes (registerDerived e s) paths
       \<and> heapExtends (heap s) (heap (registerDerived e s))"
  using addStream_effect(1,2) [OF assms] heapExtends_append [of "heap s"] assms(1)
  by (simp add: registerDerived_def split: option.splits)

lemma registerDerivedSchema_frame:
  assumes "freeRoutes s paths" and "set (map observableKeysD es) \<subseteq> set paths"
  shows "freeRoutes (registerDerivedSchema es s) paths
       \<and> heapExtends (heap s) (heap (registerDerivedSchema es s))"
  using assms
proof (induction es arbitrary: s)
  case Nil
  then show ?case by (simp add: registerDerivedSchema_def)
next
  case (Cons e es)
  from registerDerived_frame [of s paths e] Cons.prems
  have s1: "freeRoutes (registerDerived e s) paths"
    "heapExtends (heap s) (heap (registerDerived e s))" by auto
  from Cons.IH [OF s1(1)] Cons.prems(2)
  have "freeRoutes (registerDerivedSchema es (registerDerived e s)) paths"
    "heapExtends (heap (registerDerived e s)) (heap (registerDerivedSchema es (registerDerived e s)))"
    by auto
  with s1 show ?case by (auto simp: registerDerivedSchema_def intro: heapExtends_trans)
qed




section \<open>Registering derived schemas\<close>

lemma those_map_None: "\<exists>x\<in>set xs. f x = None \<Longrightarrow> those (map f xs) = None"
  by (induction xs) (auto split: option.splits)

lemma those_map_Some:
  "\<forall>x\<in>set xs. f x \<noteq> None \<Longrightarrow> those (map f xs) = Some (map (\<lambda>x. the (f x)) xs)"
  by (induction xs) (auto split: option.splits)



section \<open>Starting and disconnecting the root stream\<close>

lemma fold_next_event:
  "fold next_event updates s = s\<lparr>rootObservable := rootObservable s @ updates\<rparr>"
  by (induction updates arbitrary: s) (simp_all add: next_event_def)

lemma funpow_fold_next_event:
  "((\<lambda>s'. fold next_event updates s') ^^ k) s
     = s\<lparr>rootObservable := rootObservable s @ concat (replicate k updates)\<rparr>"
proof (induction k arbitrary: s)
  case 0
  show ?case by simp
next
  case (Suc k)
  have "((\<lambda>s'. fold next_event updates s') ^^ Suc k) s
          = ((\<lambda>s'. fold next_event updates s') ^^ k) (fold next_event updates s)"
    by (simp add: funpow_swap1)
  also have "\<dots> = (fold next_event updates s)
      \<lparr>rootObservable := rootObservable (fold next_event updates s) @ concat (replicate k updates)\<rparr>"
    by (rule Suc)
  also have "\<dots> = s\<lparr>rootObservable := rootObservable s @ concat (replicate (Suc k) updates)\<rparr>"
    by (simp add: fold_next_event)
  finally show ?case .
qed

lemma startObservable_iterate:
  assumes "watcher s = Some w" and "rootSubscription s = None"
  shows "watcher (((\<lambda>s. snd (startObservable s)) ^^ n) s)
           = Some (w\<lparr>subscribers := subscribers w + n\<rparr>)
       \<and> rootSubscription (((\<lambda>s. snd (startObservable s)) ^^ n) s) = None
       \<and> rootObservable (((\<lambda>s. snd (startObservable s)) ^^ n) s) = rootObservable s"
proof (induction n)
  case 0
  from assms show ?case by simp
next
  case (Suc n)
  then show ?case
    by (simp add: startObservable_def watcherSubscribe_def)
qed

text \<open>
  C10. Without a watcher \<^verbatim>\<open>startObservable\<close> throws and changes nothing. With a
  watcher, after any number \<open>n\<close> of calls the next call again returns the root stream,
  the field the guard reads is still \<^verbatim>\<open>null\<close>, each call has added a listener to the
  watcher, and one batch of updates is appended to the root stream once per listener:
  \<open>n\<close> times for a new watcher.
\<close>

theorem startObservable_subscribes_every_time:
  "(watcher s = None \<longrightarrow> startObservable s = (Inl WatcherNotDefined, s))
   \<and> (watcher s = Some w \<and> rootSubscription s = None \<longrightarrow>
        (let sn = ((\<lambda>s. snd (startObservable s)) ^^ n) s
         in fst (startObservable sn) = Inr RootObservable
            \<and> rootSubscription sn = None
            \<and> watcher sn = Some (w\<lparr>subscribers := subscribers w + n\<rparr>)
            \<and> rootObservable (watcherUpdates updates sn)
                = rootObservable s @ concat (replicate (subscribers w + n) updates)))"
proof -
  have a: "startObservable s = (Inl WatcherNotDefined, s)" if "watcher s = None"
    using that by (simp add: startObservable_def)
  have b: "(let sn = ((\<lambda>s. snd (startObservable s)) ^^ n) s
         in fst (startObservable sn) = Inr RootObservable
            \<and> rootSubscription sn = None
            \<and> watcher sn = Some (w\<lparr>subscribers := subscribers w + n\<rparr>)
            \<and> rootObservable (watcherUpdates updates sn)
                = rootObservable s @ concat (replicate (subscribers w + n) updates))"
    if "watcher s = Some w" "rootSubscription s = None"
    using startObservable_iterate [OF that, of n]
    by (simp add: Let_def startObservable_def watcherSubscribe_def watcherUpdates_def
        funpow_fold_next_event)
  from a b show ?thesis by blast
qed

theorem startObservable_subscribes_every_time_witness:
  "startObservable (constructor :: (int, unit) service) = (Inl WatcherNotDefined, constructor)
   \<and> (let s3 = snd (startObservable (snd (startObservable (snd (startObservable serviceWithWatcher)))))
       in watcher s3 = Some \<lparr>calls = [], subscribers = 3\<rparr>
          \<and> rootSubscription s3 = None
          \<and> rootObservable (watcherUpdates [\<lparr>type = ''k'', val = 1\<rparr>, \<lparr>type = ''k'', val = 2\<rparr>] s3)
              = [\<lparr>type = ''k'', val = 1\<rparr>, \<lparr>type = ''k'', val = 2\<rparr>,
                 \<lparr>type = ''k'', val = 1\<rparr>, \<lparr>type = ''k'', val = 2\<rparr>,
                 \<lparr>type = ''k'', val = 1\<rparr>, \<lparr>type = ''k'', val = 2\<rparr>])"
proof -
  have n: "watcher (constructor :: (int, unit) service) = None" by (simp add: constructor_def)
  have w: "watcher serviceWithWatcher = Some \<lparr>calls = [], subscribers = 0\<rparr>
           \<and> rootSubscription serviceWithWatcher = None"
    by (simp add: example_defs)
  note 1 = startObservable_subscribes_every_time
         [of "constructor :: (int, unit) service" "\<lparr>calls = [], subscribers = 0\<rparr>" 0 "[]",
          THEN conjunct1, THEN mp, OF n]
  note 2 = startObservable_subscribes_every_time
         [of serviceWithWatcher "\<lparr>calls = [], subscribers = 0\<rparr>" 3
            "[\<lparr>type = ''k'', val = 1\<rparr>, \<lparr>type = ''k'', val = 2\<rparr>]",
          THEN conjunct2, THEN mp, OF w]
  have r: "rootObservable serviceWithWatcher = []" by (simp add: example_defs)
  from 1 2 r show ?thesis
    by (simp add: Let_def numeral_3_eq_3)
qed

text \<open>
  C9. The code at the failing input: after one \<^verbatim>\<open>startObservable\<close>, \<^verbatim>\<open>disconnect\<close>
  returns the state it was given; the watcher still has the listener and an update still
  reaches the root stream.
\<close>

theorem disconnect_keeps_subscription:
  "(let s1 = snd (startObservable serviceWithWatcher); s2 = disconnect s1
    in s2 = s1
       \<and> watcher s2 = Some \<lparr>calls = [], subscribers = 1\<rparr>
       \<and> rootObservable (watcherUpdates [\<lparr>type = ''k'', val = 7\<rparr>] s2) = [\<lparr>type = ''k'', val = 7\<rparr>])"
  by (simp add: disconnect_def startObservable_def watcherSubscribe_def watcherUpdates_def
      next_event_def example_defs)

end
